theory Spec2Isabelle
  imports Main
begin

section \<open>Data model\<close>

text \<open>
  Python's \<^verbatim>\<open>str\<close> is a sequence of Unicode code points, so a string is a list of
  code points (natural numbers). \<open>py\<close> turns an ASCII literal into such a string.
\<close>

type_synonym codepoint = nat
type_synonym pystr = "codepoint list"

definition py :: "string \<Rightarrow> pystr" where
  "py s = map of_char s"

text \<open>
  The two queues carry untyped Python values: a \<^verbatim>\<open>str\<close> (a URL or the sentinel) or a
  \<^verbatim>\<open>list[str]\<close> (a line batch). Python's \<^verbatim>\<open>==\<close> between a list and a string is
  always false, and between two strings or two lists it is structural equality; this is
  the equality of the datatype.
\<close>

datatype qitem = Str pystr | Lines "pystr list"

definition SITE :: pystr where
  "SITE = py ''https://www.lyrics.com/''"

definition QUEUE_SENTINEL :: qitem where
  "QUEUE_SENTINEL = Str (py ''ENQUEUE'')"

section \<open>producer\<close>

text \<open>
  \<^verbatim>\<open>producer(input_q, urls, n_consumers)\<close> runs two loops, each iteration waiting until
  the queue is not full and then putting one value. The state of the producer is what is
  left of \<open>urls\<close> and how many iterations of \<^verbatim>\<open>range(n_consumers)\<close> are left
  (\<^verbatim>\<open>range\<close> of a negative number is empty, hence \<open>nat\<close>). \<open>producer_step\<close> is one
  iteration: the value put, and the state after it; \<open>None\<close> when both loops are over.
\<close>

type_synonym producer_state = "pystr list \<times> nat"

definition producer_init :: "pystr list \<Rightarrow> int \<Rightarrow> producer_state" where
  "producer_init urls n_consumers = (urls, nat n_consumers)"

fun producer_step :: "producer_state \<Rightarrow> (qitem \<times> producer_state) option" where
  "producer_step (url # urls, k) = Some (Str url, (urls, k))"
| "producer_step ([], Suc k) = Some (QUEUE_SENTINEL, ([], k))"
| "producer_step ([], 0) = None"

text \<open>The sequence of values the producer puts, from a state to the end of both loops.\<close>

function producer_puts :: "producer_state \<Rightarrow> qitem list" where
  "producer_puts st =
     (case producer_step st of
        None \<Rightarrow> []
      | Some (v, st') \<Rightarrow> v # producer_puts st')"
  by pat_completeness auto
termination
proof (relation "measure (\<lambda>(urls, k). length urls + k)")
  show "wf (measure (\<lambda>(urls, k). length urls + k))" by simp
next
  fix st x v st'
  assume "producer_step st = Some x" and "(v, st') = x"
  then show "(st', st) \<in> measure (\<lambda>(urls, k). length urls + k)"
    by (cases st rule: producer_step.cases) auto
qed

declare producer_puts.simps [simp del]

definition producer :: "pystr list \<Rightarrow> int \<Rightarrow> qitem list" where
  "producer urls n_consumers = producer_puts (producer_init urls n_consumers)"

section \<open>Regular expressions and string helpers\<close>

fun startswith :: "pystr \<Rightarrow> pystr \<Rightarrow> bool" where
  "startswith s [] = True"
| "startswith [] (p # ps) = False"
| "startswith (c # cs) (p # ps) = (c = p \<and> startswith cs ps)"

text \<open>Index of the first occurrence of a character, and of a substring (\<^verbatim>\<open>str.find\<close>).\<close>

fun index_of :: "codepoint \<Rightarrow> pystr \<Rightarrow> nat option" where
  "index_of x [] = None"
| "index_of x (c # cs) = (if c = x then Some 0 else map_option Suc (index_of x cs))"

fun index_of_sub :: "pystr \<Rightarrow> pystr \<Rightarrow> nat option" where
  "index_of_sub sub [] = (if sub = [] then Some 0 else None)"
| "index_of_sub sub (c # cs) =
     (if startswith (c # cs) sub then Some 0 else map_option Suc (index_of_sub sub cs))"

text \<open>\<^verbatim>\<open>sub in s\<close>.\<close>

definition contains :: "pystr \<Rightarrow> pystr \<Rightarrow> bool" where
  "contains s sub = (index_of_sub sub s \<noteq> None)"

text \<open>
  \<^verbatim>\<open>re.split(r"\r\n|\n", s)\<close>: scanning from the left, a carriage return followed by a line
  feed, or else a line feed alone, ends the current piece. The accumulator holds the
  current piece reversed.
\<close>

fun re_split_newline_acc :: "pystr \<Rightarrow> pystr \<Rightarrow> pystr list" where
  "re_split_newline_acc acc [] = [rev acc]"
| "re_split_newline_acc acc [c] = (if c = 10 then [rev acc, []] else [rev (c # acc)])"
| "re_split_newline_acc acc (c # d # cs) =
     (if c = 13 \<and> d = 10 then rev acc # re_split_newline_acc [] cs
      else if c = 10 then rev acc # re_split_newline_acc [] (d # cs)
      else re_split_newline_acc (c # acc) (d # cs))"

definition re_split_newline :: "pystr \<Rightarrow> pystr list" where
  "re_split_newline s = re_split_newline_acc [] s"

text \<open>
  \<^verbatim>\<open>re.compile(r"<pre.*?>(.*?)</pre>", re.DOTALL)\<close> tried at the start of \<open>s\<close>: the literal
  \<^verbatim>\<open><pre\<close>, lazily up to the first \<^verbatim>\<open>>\<close>, then the group lazily up to the first
  \<^verbatim>\<open></pre>\<close> after it. A later \<^verbatim>\<open>>\<close> cannot succeed where the first one fails, so the
  lazy choice is the only one. The result is the group and the length of the match.
\<close>

definition match_pre_at :: "pystr \<Rightarrow> (pystr \<times> nat) option" where
  "match_pre_at s =
     (if startswith s (py ''<pre'') then
        (case index_of 62 (drop 4 s) of
           None \<Rightarrow> None
         | Some j \<Rightarrow>
            (case index_of_sub (py ''</pre>'') (drop (5 + j) s) of
               None \<Rightarrow> None
             | Some k \<Rightarrow> Some (take k (drop (5 + j) s), 5 + j + k + 6)))
      else None)"

text \<open>
  \<^verbatim>\<open>re.findall\<close> scans from the left and resumes at the end of each match. The first
  argument is the number of characters still inside the previous match.
\<close>

fun findall_pre_from :: "nat \<Rightarrow> pystr \<Rightarrow> pystr list" where
  "findall_pre_from skip [] = []"
| "findall_pre_from (Suc skip) (c # cs) = findall_pre_from skip cs"
| "findall_pre_from 0 (c # cs) =
     (case match_pre_at (c # cs) of
        Some (grp, len) \<Rightarrow> grp # findall_pre_from (len - 1) cs
      | None \<Rightarrow> findall_pre_from 0 cs)"

definition findall_pre :: "pystr \<Rightarrow> pystr list" where
  "findall_pre html = findall_pre_from 0 html"

text \<open>
  \<^verbatim>\<open>re.compile(r'href="/lyric/(.*?)/')\<close> tried at the start of \<open>s\<close>: the literal, then
  the group lazily up to the first \<^verbatim>\<open>/\<close>; the dot does not match a line feed.
\<close>

definition href_lyric :: pystr where
  "href_lyric = py ''href='' @ [34] @ py ''/lyric/''"

definition match_song_id_at :: "pystr \<Rightarrow> (pystr \<times> nat) option" where
  "match_song_id_at s =
     (if startswith s href_lyric then
        (case index_of 47 (drop 13 s) of
           None \<Rightarrow> None
         | Some j \<Rightarrow>
            if 10 \<in> set (take j (drop 13 s)) then None
            else Some (take j (drop 13 s), 13 + j + 1))
      else None)"

fun findall_song_ids_from :: "nat \<Rightarrow> pystr \<Rightarrow> pystr list" where
  "findall_song_ids_from skip [] = []"
| "findall_song_ids_from (Suc skip) (c # cs) = findall_song_ids_from skip cs"
| "findall_song_ids_from 0 (c # cs) =
     (case match_song_id_at (c # cs) of
        Some (grp, len) \<Rightarrow> grp # findall_song_ids_from (len - 1) cs
      | None \<Rightarrow> findall_song_ids_from 0 cs)"

definition findall_song_ids :: "pystr \<Rightarrow> pystr list" where
  "findall_song_ids html = findall_song_ids_from 0 html"

section \<open>The network, errors and files\<close>

text \<open>
  The outcome of \<^verbatim>\<open>urlopen(req)\<close> followed by \<^verbatim>\<open>response.read().decode()\<close> is given by
  the environment: the decoded page, or an exception.
\<close>

datatype response = Raises | Page pystr

type_synonym fetcher = "pystr \<Rightarrow> response"

datatype error = FetchError | FileNotFoundError | OSError | ValueError

text \<open>A file system maps a file name to the text of the file, when the file exists.\<close>

type_synonym filesystem = "pystr \<rightharpoonup> pystr"

text \<open>
  Whether \<^verbatim>\<open>open\<close> succeeds on a file name (it raises \<^verbatim>\<open>OSError\<close> on a name that is too
  long or in a directory that cannot be written) and whether \<^verbatim>\<open>open_file.write\<close> succeeds on
  a text (it raises when the text cannot be encoded or stored) is given by the environment.
\<close>

record io =
  can_open :: "pystr \<Rightarrow> bool"
  can_write :: "pystr \<Rightarrow> bool"

text \<open>
  How an iteration of a loop ends, and how a loop that consumes a given sequence of queue
  values ends: it breaks, or an exception leaves it, or it is left waiting in \<^verbatim>\<open>get\<close> once
  the sequence is used up.
\<close>

datatype ending = Continue | Break | Raise

datatype status = Exited | Waiting | Raised

section \<open>build\_urls\<close>

definition not_found :: pystr where
  "not_found = py ''We couldn't find any artists matching your query''"

definition build_urls :: "response \<Rightarrow> error + pystr list" where
  "build_urls resp =
     (case resp of
        Raises \<Rightarrow> Inl FetchError
      | Page html \<Rightarrow>
          (let song_ids = findall_song_ids html;
               song_ids = (if contains html not_found then [] else song_ids)
           in Inr (map (\<lambda>song_id. SITE @ py ''db-print.php?id='' @ song_id) song_ids)))"

section \<open>write\_data and lyric\_writer\<close>

text \<open>
  The loop of \<^verbatim>\<open>write_data\<close> over \<open>data\<close>, on the text of the file opened for appending:
  every non-empty line is written followed by a line feed. A write that raises ends the
  loop; what was written before it stays in the file.
\<close>

fun write_lines :: "io \<Rightarrow> pystr \<Rightarrow> pystr list \<Rightarrow> pystr \<times> error option" where
  "write_lines os text [] = (text, None)"
| "write_lines os text (line # data) =
     (if line \<noteq> [] then
        (if can_write os (line @ [10]) then write_lines os (text @ line @ [10]) data
         else (text, Some OSError))
      else write_lines os text data)"

text \<open>
  Opening with mode \<^verbatim>\<open>"a"\<close> creates the file when it does not exist, and raises when the
  name cannot be opened. The result is the file system and the exception, if any, that
  leaves \<^verbatim>\<open>write_data\<close>.
\<close>

definition write_data ::
  "io \<Rightarrow> filesystem \<Rightarrow> pystr \<Rightarrow> pystr list \<Rightarrow> filesystem \<times> error option" where
  "write_data os fs outfile data =
     (if \<not> can_open os outfile then (fs, Some OSError)
      else
        (case write_lines os (case fs outfile of None \<Rightarrow> [] | Some text \<Rightarrow> text) data of
           (text, err) \<Rightarrow> (fs(outfile \<mapsto> text), err)))"

text \<open>
  What \<^verbatim>\<open>for line in data\<close> iterates over: the elements of a list, the characters of a
  string.
\<close>

fun iterate :: "qitem \<Rightarrow> pystr list" where
  "iterate (Lines ls) = ls"
| "iterate (Str s) = map (\<lambda>c. [c]) s"

text \<open>
  One iteration of the loop of \<^verbatim>\<open>lyric_writer\<close> on the value got from the queue. The
  state is the file system and the counter \<open>finished\<close>. An exception of \<^verbatim>\<open>write_data\<close>
  is not handled and leaves the loop.
\<close>

type_synonym writer_state = "filesystem \<times> int"

definition lyric_writer_step ::
  "io \<Rightarrow> pystr \<Rightarrow> int \<Rightarrow> writer_state \<Rightarrow> qitem \<Rightarrow> writer_state \<times> ending" where
  "lyric_writer_step os lyric_file max_concurrent st lyrics =
     (case st of (fs, finished) \<Rightarrow>
        if lyrics = QUEUE_SENTINEL
        then ((fs, finished + 1), if finished + 1 = max_concurrent then Break else Continue)
        else
          (case write_data os fs lyric_file (iterate lyrics) of
             (fs', None) \<Rightarrow> ((fs', finished), Continue)
           | (fs', Some e) \<Rightarrow> ((fs', finished), Raise)))"

text \<open>
  The writer on the sequence of values it receives: how it ends, its state, and the values
  it has not consumed.
\<close>

fun lyric_writer_loop ::
  "io \<Rightarrow> pystr \<Rightarrow> int \<Rightarrow> writer_state \<Rightarrow> qitem list \<Rightarrow>
     status \<times> writer_state \<times> qitem list" where
  "lyric_writer_loop os lyric_file max_concurrent st [] = (Waiting, st, [])"
| "lyric_writer_loop os lyric_file max_concurrent st (lyrics # rest) =
     (case lyric_writer_step os lyric_file max_concurrent st lyrics of
        (st', Break) \<Rightarrow> (Exited, st', rest)
      | (st', Raise) \<Rightarrow> (Raised, st', rest)
      | (st', Continue) \<Rightarrow> lyric_writer_loop os lyric_file max_concurrent st' rest)"

definition lyric_writer ::
  "io \<Rightarrow> filesystem \<Rightarrow> pystr \<Rightarrow> qitem list \<Rightarrow> int \<Rightarrow>
     status \<times> writer_state \<times> qitem list" where
  "lyric_writer os fs lyric_file lyrics_queue max_concurrent =
     lyric_writer_loop os lyric_file max_concurrent (fs, 0) lyrics_queue"

section \<open>get\_song\_lyrics\<close>

text \<open>
  One iteration of the loop of \<^verbatim>\<open>get_song_lyrics\<close> on the value got from the input
  queue: the values it puts on the lyrics queue, and how the iteration ends. An exception
  of the fetch passes through \<^verbatim>\<open>try ... finally\<close> and ends the function. A value that
  is not a string makes \<^verbatim>\<open>urllib.request.Request\<close> raise.
\<close>

definition get_song_lyrics_step :: "fetcher \<Rightarrow> qitem \<Rightarrow> qitem list \<times> ending" where
  "get_song_lyrics_step fetch url =
     (if url = QUEUE_SENTINEL then ([QUEUE_SENTINEL], Break)
      else
        (case url of
           Lines _ \<Rightarrow> ([], Raise)
         | Str u \<Rightarrow>
            (case fetch u of
               Raises \<Rightarrow> ([], Raise)
             | Page html \<Rightarrow>
                (case findall_pre html of
                   [] \<Rightarrow> ([], Continue)
                 | m # _ \<Rightarrow> ([Lines (re_split_newline m)], Continue)))))"

text \<open>
  The worker on the sequence of values it receives: how it ends, what it has put on the
  lyrics queue, and the values it has not consumed.
\<close>

fun get_song_lyrics :: "fetcher \<Rightarrow> qitem list \<Rightarrow> status \<times> qitem list \<times> qitem list" where
  "get_song_lyrics fetch [] = (Waiting, [], [])"
| "get_song_lyrics fetch (url # rest) =
     (case get_song_lyrics_step fetch url of
        (puts, Break) \<Rightarrow> (Exited, puts, rest)
      | (puts, Raise) \<Rightarrow> (Raised, puts, rest)
      | (puts, Continue) \<Rightarrow>
          (case get_song_lyrics fetch rest of
             (st, later, left) \<Rightarrow> (st, puts @ later, left)))"

text \<open>
  The file system after \<^verbatim>\<open>write_data\<close> on every value of a sequence that is not the
  sentinel, in order: what the writer has written once it has consumed the sequence.
\<close>

definition written :: "io \<Rightarrow> filesystem \<Rightarrow> pystr \<Rightarrow> qitem list \<Rightarrow> filesystem" where
  "written os fs lyric_file items =
     foldl (\<lambda>fs lyrics. fst (write_data os fs lyric_file (iterate lyrics))) fs
       (filter (\<lambda>lyrics. lyrics \<noteq> QUEUE_SENTINEL) items)"

section \<open>textwrap.wrap\<close>

text \<open>
  The standard library's \<^verbatim>\<open>textwrap.wrap(text, width, break_long_words=False)\<close>, with
  every other option at its default, follows \<^verbatim>\<open>TextWrapper.wrap\<close>: the whitespace of
  the text is normalised (\<^verbatim>\<open>_munge_whitespace\<close>), the text is split into chunks
  (\<^verbatim>\<open>_split\<close>), and the chunks are laid out on lines (\<^verbatim>\<open>_wrap_chunks\<close>).
\<close>

text \<open>The characters of \<^verbatim>\<open>textwrap._whitespace\<close>, and those of \<^verbatim>\<open>str.isspace\<close>.\<close>

definition textwrap_whitespace :: "codepoint \<Rightarrow> bool" where
  "textwrap_whitespace c = (c \<in> {9, 10, 11, 12, 13, 32})"

definition isspace :: "codepoint \<Rightarrow> bool" where
  "isspace c =
     ((9 \<le> c \<and> c \<le> 13) \<or> (28 \<le> c \<and> c \<le> 32) \<or> c = 133 \<or> c = 160 \<or> c = 5760
      \<or> (8192 \<le> c \<and> c \<le> 8202) \<or> c = 8232 \<or> c = 8233 \<or> c = 8239 \<or> c = 8287
      \<or> c = 12288)"

text \<open>
  \<^verbatim>\<open>text.expandtabs(8)\<close>: a tab becomes the spaces up to the next multiple of eight
  columns; the column starts again after a line feed or a carriage return.
\<close>

fun expandtabs :: "nat \<Rightarrow> pystr \<Rightarrow> pystr" where
  "expandtabs col [] = []"
| "expandtabs col (c # cs) =
     (if c = 9 then replicate (8 - col mod 8) 32 @ expandtabs 0 cs
      else if c = 10 \<or> c = 13 then c # expandtabs 0 cs
      else c # expandtabs (col + 1) cs)"

definition munge_whitespace :: "pystr \<Rightarrow> pystr" where
  "munge_whitespace text =
     map (\<lambda>c. if textwrap_whitespace c then 32 else c) (expandtabs 0 text)"

text \<open>
  \<^verbatim>\<open>_split\<close> on a text without the hyphen \<^verbatim>\<open>-\<close>: the chunks are the maximal runs of
  whitespace and the maximal runs of other characters, in order (the hyphen rules of
  \<^verbatim>\<open>wordsep_re\<close> need a hyphen to apply; \<^verbatim>\<open>make_phrases\<close> removes every hyphen before
  it wraps). The accumulator holds the current chunk reversed.
\<close>

fun split_acc :: "pystr \<Rightarrow> pystr \<Rightarrow> pystr list" where
  "split_acc cur [] = (if cur = [] then [] else [rev cur])"
| "split_acc cur (c # cs) =
     (if cur = [] \<or> textwrap_whitespace (hd cur) = textwrap_whitespace c
      then split_acc (c # cur) cs
      else rev cur # split_acc [c] cs)"

definition split_chunks :: "pystr \<Rightarrow> pystr list" where
  "split_chunks text = split_acc [] (munge_whitespace text)"

text \<open>\<^verbatim>\<open>chunk.strip() == ''\<close>.\<close>

definition blank :: "pystr \<Rightarrow> bool" where
  "blank chunk = (\<forall>c \<in> set chunk. isspace c)"

text \<open>
  The inner loop of \<^verbatim>\<open>_wrap_chunks\<close>: chunks go onto the current line while they fit.
  The list of chunks is in text order (the source reverses it and pops from the end).
\<close>

fun fill_line ::
  "nat \<Rightarrow> pystr list \<Rightarrow> nat \<Rightarrow> pystr list \<Rightarrow> pystr list \<times> nat \<times> pystr list" where
  "fill_line width cur_line cur_len [] = (cur_line, cur_len, [])"
| "fill_line width cur_line cur_len (chunk # chunks) =
     (if cur_len + length chunk \<le> width
      then fill_line width (cur_line @ [chunk]) (cur_len + length chunk) chunks
      else (cur_line, cur_len, chunk # chunks))"

text \<open>
  \<^verbatim>\<open>_handle_long_word\<close> with \<^verbatim>\<open>break_long_words=False\<close>: the long chunk goes, whole,
  onto the current line only when the line is empty.
\<close>

fun handle_long_word :: "pystr list \<Rightarrow> pystr list \<Rightarrow> pystr list \<times> pystr list" where
  "handle_long_word (chunk # chunks) [] = ([chunk], chunks)"
| "handle_long_word chunks cur_line = (cur_line, chunks)"

text \<open>
  One iteration of the outer loop of \<^verbatim>\<open>_wrap_chunks\<close>, with empty indents, on a
  non-empty list of chunks: the lines so far and the chunks left.
\<close>

definition wrap_line :: "nat \<Rightarrow> pystr list \<Rightarrow> pystr list \<Rightarrow> pystr list \<times> pystr list" where
  "wrap_line width lines chunks =
     (let chunks = (if blank (hd chunks) \<and> lines \<noteq> [] then tl chunks else chunks);
          (cur_line, cur_len, chunks) = fill_line width [] 0 chunks;
          (cur_line, chunks) =
            (if chunks \<noteq> [] \<and> length (hd chunks) > width
             then handle_long_word chunks cur_line
             else (cur_line, chunks));
          cur_line =
            (if cur_line \<noteq> [] \<and> blank (last cur_line) then butlast cur_line else cur_line)
      in (if cur_line \<noteq> [] then lines @ [concat cur_line] else lines, chunks))"

lemma fill_line_rest:
  "fill_line width cur_line cur_len chunks = (cur_line', cur_len', rest) \<Longrightarrow>
   length rest \<le> length chunks \<and>
   (length rest = length chunks \<longrightarrow> cur_line' = cur_line \<and> cur_len' = cur_len \<and> rest = chunks)"
proof (induction chunks arbitrary: cur_line cur_len)
  case Nil
  then show ?case by simp
next
  case (Cons chunk chunks)
  show ?case
  proof (cases "cur_len + length chunk \<le> width")
    case True
    with Cons.prems have
      "fill_line width (cur_line @ [chunk]) (cur_len + length chunk) chunks =
         (cur_line', cur_len', rest)"
      by simp
    from Cons.IH [OF this] show ?thesis by simp
  next
    case False
    with Cons.prems show ?thesis by auto
  qed
qed

lemma fill_line_stuck:
  "fill_line width [] 0 (chunk # chunks) = (cur_line, cur_len, chunk' # chunks') \<Longrightarrow>
   length chunks' = length chunks \<Longrightarrow> cur_line = [] \<and> width < length chunk'"
proof -
  assume f: "fill_line width [] 0 (chunk # chunks) = (cur_line, cur_len, chunk' # chunks')"
    and l: "length chunks' = length chunks"
  from fill_line_rest [OF f] l have r: "cur_line = []" "chunk' # chunks' = chunk # chunks"
    by simp_all
  have "width < length chunk"
  proof (rule ccontr)
    assume "\<not> width < length chunk"
    with f have "fill_line width [chunk] (length chunk) chunks = (cur_line, cur_len, chunk' # chunks')"
      by simp
    from fill_line_rest [OF this] l show False by simp
  qed
  with r show ?thesis by simp
qed

lemma handle_long_word_rest:
  "handle_long_word chunks cur_line = (cur_line', rest) \<Longrightarrow> length rest \<le> length chunks"
  by (cases "(chunks, cur_line)" rule: handle_long_word.cases) auto

lemma wrap_line_consumes:
  assumes "chunks \<noteq> []" and "wrap_line width lines chunks = (lines', rest)"
  shows "length rest < length chunks"
proof -
  define start where "start = (if blank (hd chunks) \<and> lines \<noteq> [] then tl chunks else chunks)"
  obtain cur_line cur_len left where f: "fill_line width [] 0 start = (cur_line, cur_len, left)"
    by (cases "fill_line width [] 0 start") auto
  obtain cur_line' left' where h:
    "(if left \<noteq> [] \<and> length (hd left) > width
      then handle_long_word left cur_line else (cur_line, left)) = (cur_line', left')"
    by (cases "if left \<noteq> [] \<and> length (hd left) > width
      then handle_long_word left cur_line else (cur_line, left)") auto
  from assms(2) f h have rest: "rest = left'"
    by (simp add: wrap_line_def start_def Let_def)
  from fill_line_rest [OF f] have le: "length left \<le> length start" by simp
  from h have le': "length left' \<le> length left"
    by (auto split: if_splits dest: handle_long_word_rest)
  show ?thesis
  proof (cases "length left' < length chunks")
    case True
    with rest show ?thesis by simp
  next
    case False
    from assms(1) have "length start \<le> length chunks"
      by (simp add: start_def)
    with False le le' have eq: "length left = length start" "length start = length chunks"
      "length left' = length left"
      by simp_all
    have s: "start = chunks"
    proof (rule ccontr)
      assume "start \<noteq> chunks"
      then have "start = tl chunks" by (simp add: start_def split: if_splits)
      with assms(1) have "length start < length chunks" by simp
      with eq show False by simp
    qed
    from assms(1) obtain c cs where c: "chunks = c # cs" by (cases chunks) auto
    from eq s c obtain d ds where d: "left = d # ds" by (cases left) auto
    from f s c d eq have "cur_line = [] \<and> width < length d"
      using fill_line_stuck [of width c cs cur_line cur_len d ds] by simp
    with h d have "left' = ds" by simp
    with eq d show ?thesis by simp
  qed
qed

text \<open>The outer loop of \<^verbatim>\<open>_wrap_chunks\<close>.\<close>

function wrap_chunks :: "nat \<Rightarrow> pystr list \<Rightarrow> pystr list \<Rightarrow> pystr list" where
  "wrap_chunks width lines chunks =
     (if chunks = [] then lines
      else (case wrap_line width lines chunks of
              (lines', chunks') \<Rightarrow> wrap_chunks width lines' chunks'))"
  by pat_completeness auto
termination
proof (relation "measure (\<lambda>(width, lines, chunks). length chunks)", goal_cases)
  case 1
  show ?case by simp
next
  case (2 width lines chunks lines' chunks')
  then have "wrap_line width lines chunks = (lines', chunks')" by simp
  with 2(1) have "length chunks' < length chunks"
    by (rule wrap_line_consumes)
  then show ?case by simp
qed

declare wrap_chunks.simps [simp del]

text \<open>\<^verbatim>\<open>_wrap_chunks\<close> raises \<^verbatim>\<open>ValueError\<close> when the width is not positive.\<close>

definition textwrap_wrap :: "pystr \<Rightarrow> int \<Rightarrow> error + pystr list" where
  "textwrap_wrap text width =
     (if width \<le> 0 then Inl ValueError
      else Inr (wrap_chunks (nat width) [] (split_chunks text)))"

section \<open>make\_phrases\<close>

text \<open>
  The Unicode tables of the standard library are parameters: \<^verbatim>\<open>str.lower\<close>,
  \<^verbatim>\<open>unicodedata.normalize("NFKD", s)\<close> and \<^verbatim>\<open>unicodedata.combining\<close>.
\<close>

record unicodedata =
  lower :: "pystr \<Rightarrow> pystr"
  normalize_NFKD :: "pystr \<Rightarrow> pystr"
  combining :: "codepoint \<Rightarrow> nat"

text \<open>The command line options of \<^verbatim>\<open>parse_args\<close>.\<close>

record args =
  artist :: "pystr option"
  infile :: "pystr option"
  arg_min :: int
  arg_max :: int
  max_concurrent_dl :: int

definition remove_accents :: "unicodedata \<Rightarrow> pystr \<Rightarrow> pystr" where
  "remove_accents ud input_str =
     (let nfkd_form = normalize_NFKD ud input_str
      in filter (\<lambda>c. combining ud c = 0) nfkd_form)"

text \<open>The characters that \<^verbatim>\<open>[^a-zA-Z0-9 '&]\<close> does not match.\<close>

definition allowed_char :: "codepoint \<Rightarrow> bool" where
  "allowed_char c =
     ((97 \<le> c \<and> c \<le> 122) \<or> (65 \<le> c \<and> c \<le> 90) \<or> (48 \<le> c \<and> c \<le> 57)
      \<or> c = 32 \<or> c = 39 \<or> c = 38)"

text \<open>\<^verbatim>\<open>re.sub(r"[-_]", " ", s)\<close>.\<close>

definition sub_hyphens :: "pystr \<Rightarrow> pystr" where
  "sub_hyphens s = map (\<lambda>c. if c = 45 \<or> c = 95 then 32 else c) s"

text \<open>
  \<^verbatim>\<open>re.sub(r"\s\s+", " ", s)\<close>: every maximal run of two or more whitespace characters
  becomes one space. The flag tells that the scan is inside a run already replaced.
\<close>

fun sub_spaces :: "bool \<Rightarrow> pystr \<Rightarrow> pystr" where
  "sub_spaces in_run [] = []"
| "sub_spaces True (c # cs) =
     (if isspace c then sub_spaces True cs else c # sub_spaces False cs)"
| "sub_spaces False (c # cs) =
     (if isspace c \<and> (case cs of [] \<Rightarrow> False | d # _ \<Rightarrow> isspace d)
      then 32 # sub_spaces True cs
      else c # sub_spaces False cs)"

definition clean_line :: "unicodedata \<Rightarrow> pystr \<Rightarrow> pystr" where
  "clean_line ud line =
     (let line = filter allowed_char (remove_accents ud (sub_hyphens (lower ud line)));
          line = sub_spaces False line
      in line)"

text \<open>The loop over \<open>clean_lines\<close>, with \<open>final_lines\<close> as accumulator.\<close>

fun keep_acceptable :: "args \<Rightarrow> pystr list \<Rightarrow> pystr list \<Rightarrow> error + pystr list" where
  "keep_acceptable a final_lines [] = Inr final_lines"
| "keep_acceptable a final_lines (item # clean_lines) =
     (let line_length = int (length item)
      in if line_length < arg_min a then keep_acceptable a final_lines clean_lines
         else if line_length > arg_max a then
           (case textwrap_wrap item (arg_max a) of
              Inl e \<Rightarrow> Inl e
            | Inr ls \<Rightarrow> keep_acceptable a (final_lines @ ls) clean_lines)
         else keep_acceptable a (final_lines @ [item]) clean_lines)"

definition make_phrases :: "unicodedata \<Rightarrow> pystr \<Rightarrow> args \<Rightarrow> error + pystr list" where
  "make_phrases ud line a =
     (let clean_lines = [] @ [clean_line ud line]
      in keep_acceptable a [] clean_lines)"

text \<open>
  On ASCII text the three tables are known: \<^verbatim>\<open>str.lower\<close> maps \<^verbatim>\<open>A-Z\<close> to \<^verbatim>\<open>a-z\<close> and
  leaves the rest, NFKD normalisation changes nothing, and no ASCII character is a
  combining character. \<open>ascii_compatible\<close> says that tables behave so on ASCII text, and
  \<open>ascii_unicodedata\<close> are tables that do.
\<close>

definition is_ascii :: "pystr \<Rightarrow> bool" where
  "is_ascii s = (\<forall>c \<in> set s. c < 128)"

definition ascii_lower :: "codepoint \<Rightarrow> codepoint" where
  "ascii_lower c = (if 65 \<le> c \<and> c \<le> 90 then c + 32 else c)"

definition ascii_compatible :: "unicodedata \<Rightarrow> bool" where
  "ascii_compatible ud =
     ((\<forall>s. is_ascii s \<longrightarrow> lower ud s = map ascii_lower s \<and> normalize_NFKD ud s = s)
      \<and> (\<forall>c < 128. combining ud c = 0))"

definition ascii_unicodedata :: unicodedata where
  "ascii_unicodedata =
     \<lparr>lower = map ascii_lower, normalize_NFKD = (\<lambda>s. s), combining = (\<lambda>c. 0)\<rparr>"


section \<open>scrape\_lyrics\<close>

text \<open>
  \<^verbatim>\<open>scrape_lyrics\<close> creates the two queues and a \<^verbatim>\<open>multiprocessing.Pool()\<close>, submits the
  producer and the writer with \<^verbatim>\<open>apply_async\<close> and the workers with \<^verbatim>\<open>pool.map\<close>, and
  waits for them. What it is run with, and what the environment gives: the number of
  processes of the pool (\<^verbatim>\<open>os.cpu_count() or 1\<close>), the outcome of every fetch, and the
  outcome of opening and writing files.
\<close>

record scrape =
  processes :: nat
  fetch_page :: fetcher
  host :: io
  url_list :: "pystr list"
  lyric_file :: pystr
  max_dl :: int

text \<open>
  \<^verbatim>\<open>manager.Queue(int(max_concurrent_dl * 1.5))\<close>: \<^verbatim>\<open>int\<close> rounds towards zero (the product
  is exact in floating point below \<open>2\<^sup>5\<^sup>2\<close>), and a queue whose \<^verbatim>\<open>maxsize\<close> is not
  positive is never full.
\<close>

definition maxsize :: "int \<Rightarrow> int" where
  "maxsize max_concurrent =
     (if 0 \<le> max_concurrent then (3 * max_concurrent) div 2
      else - ((3 * (- max_concurrent)) div 2))"

definition full :: "int \<Rightarrow> qitem list \<Rightarrow> bool" where
  "full cap q = (0 < cap \<and> cap \<le> int (length q))"

text \<open>
  The tasks of the pool. \<^verbatim>\<open>pool.map\<close> cuts its list into chunks of \<open>chunksize\<close> calls
  (\<^verbatim>\<open>Pool._map_async\<close>, \<^verbatim>\<open>Pool._get_tasks\<close>); a chunk is one task, whose calls of
  \<^verbatim>\<open>get_song_lyrics\<close> one process runs one after the other.
\<close>

datatype task = ProducerTask | WriterTask | WorkerChunk nat

definition chunksize :: "nat \<Rightarrow> nat \<Rightarrow> nat" where
  "chunksize len procs =
     (if len = 0 then 0
      else if len mod (procs * 4) \<noteq> 0 then len div (procs * 4) + 1
      else len div (procs * 4))"

function get_tasks :: "nat \<Rightarrow> nat \<Rightarrow> task list" where
  "get_tasks len n =
     (if len = 0 \<or> n = 0 then []
      else WorkerChunk (min len n) # get_tasks (len - n) n)"
  by pat_completeness auto
termination
  by (relation "measure (\<lambda>(len, n). len)") auto

declare get_tasks.simps [simp del]

text \<open>
  The state of a run. The processes of the pool are interchangeable: the state tells how
  many are idle, whether one runs the producer, whether one runs the writer, and, for
  every process that runs a chunk, how many calls of the chunk come after the current
  one and what the current call holds between its \<^verbatim>\<open>get\<close> and its \<^verbatim>\<open>put\<close> (the values to
  put and how the iteration ends).
\<close>

record pool =
  idle :: nat
  tasks :: "task list"
  producing :: bool
  writing :: bool
  working :: "(nat \<times> (qitem list \<times> ending) option) list"
  producer_st :: producer_state
  input_queue :: "qitem list"
  lyrics_queue :: "qitem list"
  writer_st :: writer_state
  writer_status :: status
  worker_raised :: bool

definition init_pool :: "scrape \<Rightarrow> filesystem \<Rightarrow> pool" where
  "init_pool sc fs =
     \<lparr>idle = processes sc,
      tasks = [ProducerTask, WriterTask]
        @ get_tasks (nat (max_dl sc)) (chunksize (nat (max_dl sc)) (processes sc)),
      producing = False, writing = False, working = [],
      producer_st = producer_init (url_list sc) (max_dl sc),
      input_queue = [], lyrics_queue = [],
      writer_st = (fs, 0), writer_status = Waiting, worker_raised = False\<rparr>"

text \<open>
  What the scheduler may let happen next: an idle process takes the next task; the
  producer does one iteration (it waits while the queue is full); the writer gets a value
  and handles it; the \<open>i\<close>-th working process gets a value from the input queue and
  fetches; the \<open>i\<close>-th working process puts what it holds and goes on.
\<close>

datatype event = Start | Produce | Write | Get nat | Put nat

definition start_task :: "pool \<Rightarrow> pool option" where
  "start_task s =
     (if idle s = 0 then None
      else
        (case tasks s of
           [] \<Rightarrow> None
         | ProducerTask # ts \<Rightarrow> Some (s\<lparr>idle := idle s - 1, tasks := ts, producing := True\<rparr>)
         | WriterTask # ts \<Rightarrow> Some (s\<lparr>idle := idle s - 1, tasks := ts, writing := True\<rparr>)
         | WorkerChunk 0 # ts \<Rightarrow> Some (s\<lparr>tasks := ts\<rparr>)
         | WorkerChunk (Suc k) # ts \<Rightarrow>
             Some (s\<lparr>idle := idle s - 1, tasks := ts, working := working s @ [(k, None)]\<rparr>)))"

definition produce_item :: "scrape \<Rightarrow> pool \<Rightarrow> pool option" where
  "produce_item sc s =
     (if \<not> producing s then None
      else
        (case producer_step (producer_st s) of
           None \<Rightarrow> Some (s\<lparr>producing := False, idle := idle s + 1\<rparr>)
         | Some (v, st) \<Rightarrow>
             if full (maxsize (max_dl sc)) (input_queue s) then None
             else Some (s\<lparr>input_queue := input_queue s @ [v], producer_st := st\<rparr>)))"

definition write_item :: "scrape \<Rightarrow> pool \<Rightarrow> pool option" where
  "write_item sc s =
     (if \<not> writing s then None
      else
        (case lyrics_queue s of
           [] \<Rightarrow> None
         | lyrics # rest \<Rightarrow>
            (case lyric_writer_step (host sc) (lyric_file sc) (max_dl sc) (writer_st s) lyrics of
               (st, Continue) \<Rightarrow> Some (s\<lparr>lyrics_queue := rest, writer_st := st\<rparr>)
             | (st, Break) \<Rightarrow>
                 Some (s\<lparr>lyrics_queue := rest, writer_st := st, writing := False,
                         idle := idle s + 1, writer_status := Exited\<rparr>)
             | (st, Raise) \<Rightarrow>
                 Some (s\<lparr>lyrics_queue := rest, writer_st := st, writing := False,
                         idle := idle s + 1, writer_status := Raised\<rparr>))))"

definition get_item :: "scrape \<Rightarrow> nat \<Rightarrow> pool \<Rightarrow> pool option" where
  "get_item sc i s =
     (if \<not> i < length (working s) then None
      else
        (case working s ! i of
           (k, Some held) \<Rightarrow> None
         | (k, None) \<Rightarrow>
            (case input_queue s of
               [] \<Rightarrow> None
             | url # rest \<Rightarrow>
                 Some (s\<lparr>input_queue := rest,
                         working := (working s)
                           [i := (k, Some (get_song_lyrics_step (fetch_page sc) url))]\<rparr>))))"

text \<open>
  After the \<^verbatim>\<open>put\<close>: the loop goes on, or the call returns and the process starts the next
  call of its chunk or becomes idle, or the exception ends the chunk.
\<close>

definition put_held :: "nat \<Rightarrow> pool \<Rightarrow> pool option" where
  "put_held i s =
     (if \<not> i < length (working s) then None
      else
        (case working s ! i of
           (k, None) \<Rightarrow> None
         | (k, Some (puts, Continue)) \<Rightarrow>
             Some (s\<lparr>lyrics_queue := lyrics_queue s @ puts,
                     working := (working s)[i := (k, None)]\<rparr>)
         | (Suc k, Some (puts, Break)) \<Rightarrow>
             Some (s\<lparr>lyrics_queue := lyrics_queue s @ puts,
                     working := (working s)[i := (k, None)]\<rparr>)
         | (0, Some (puts, Break)) \<Rightarrow>
             Some (s\<lparr>lyrics_queue := lyrics_queue s @ puts,
                     working := take i (working s) @ drop (Suc i) (working s),
                     idle := idle s + 1\<rparr>)
         | (k, Some (puts, Raise)) \<Rightarrow>
             Some (s\<lparr>lyrics_queue := lyrics_queue s @ puts,
                     working := take i (working s) @ drop (Suc i) (working s),
                     idle := idle s + 1, worker_raised := True\<rparr>)))"

fun exec :: "scrape \<Rightarrow> event \<Rightarrow> pool \<Rightarrow> pool option" where
  "exec sc Start s = start_task s"
| "exec sc Produce s = produce_item sc s"
| "exec sc Write s = write_item sc s"
| "exec sc (Get i) s = get_item sc i s"
| "exec sc (Put i) s = put_held i s"

text \<open>A run under a schedule, a sequence of events: it stops where an event cannot happen.\<close>

fun run :: "scrape \<Rightarrow> event list \<Rightarrow> pool \<Rightarrow> pool option" where
  "run sc [] s = Some s"
| "run sc (ev # evs) s = (case exec sc ev s of None \<Rightarrow> None | Some s' \<Rightarrow> run sc evs s')"

text \<open>
  Every task has been taken and has ended: \<^verbatim>\<open>pool.map\<close> returns, and \<^verbatim>\<open>pool.join\<close> after
  it.
\<close>

definition all_done :: "pool \<Rightarrow> bool" where
  "all_done s = (tasks s = [] \<and> \<not> producing s \<and> \<not> writing s \<and> working s = [])"

text \<open>
  A measure of the work left, which every event makes smaller: a value to be produced
  counts 4, a value in the input queue 3, a value held by a worker 1 more than itself, a
  value in the lyrics queue 1.
\<close>

fun task_weight :: "task \<Rightarrow> nat" where
  "task_weight ProducerTask = 2"
| "task_weight WriterTask = 2"
| "task_weight (WorkerChunk c) = c + 1"

fun worker_weight :: "nat \<times> (qitem list \<times> ending) option \<Rightarrow> nat" where
  "worker_weight (k, None) = k + 1"
| "worker_weight (k, Some (puts, e)) = k + 1 + (1 + length puts)"

definition work_left :: "pool \<Rightarrow> nat" where
  "work_left s =
     sum_list (map task_weight (tasks s)) + (if producing s then 1 else 0)
     + (if writing s then 1 else 0) + sum_list (map worker_weight (working s))
     + 4 * (length (fst (producer_st s)) + snd (producer_st s))
     + 3 * length (input_queue s) + length (lyrics_queue s)"

text \<open>The number of lines of a text, and of the lines a batch adds to the file.\<close>

definition line_count :: "pystr \<Rightarrow> nat" where
  "line_count text = length (filter (\<lambda>c. c = 10) text)"

definition file_lines :: "filesystem \<Rightarrow> pystr \<Rightarrow> nat" where
  "file_lines fs name = (case fs name of None \<Rightarrow> 0 | Some text \<Rightarrow> line_count text)"

text \<open>
  The line batch that a worker puts for a URL, when the fetch finds lyrics, and the number
  of its non-empty lines.
\<close>

definition batch_of :: "fetcher \<Rightarrow> pystr \<Rightarrow> pystr list option" where
  "batch_of fetch u =
     (case fetch u of
        Raises \<Rightarrow> None
      | Page html \<Rightarrow>
         (case findall_pre html of [] \<Rightarrow> None | m # _ \<Rightarrow> Some (re_split_newline m)))"

definition nonempty_lines :: "fetcher \<Rightarrow> pystr \<Rightarrow> nat" where
  "nonempty_lines fetch u =
     (case batch_of fetch u of None \<Rightarrow> 0 | Some ls \<Rightarrow> length (filter (\<lambda>l. l \<noteq> []) ls))"

text \<open>
  Book-keeping of a state: the values that no worker has got yet (those in the input queue
  and those the producer has still to put), the sentinels that workers hold, the calls of
  \<^verbatim>\<open>get_song_lyrics\<close> that have not returned, and the lines that the values on their way
  to the writer will add to the file.
\<close>

definition todo :: "pool \<Rightarrow> qitem list" where
  "todo s = input_queue s @ producer_puts (producer_st s)"

fun held_sentinels :: "nat \<times> (qitem list \<times> ending) option \<Rightarrow> nat" where
  "held_sentinels (k, None) = 0"
| "held_sentinels (k, Some (puts, e)) = count_list puts QUEUE_SENTINEL"

fun calls_left :: "nat \<times> (qitem list \<times> ending) option \<Rightarrow> nat" where
  "calls_left (k, held) = k + 1"

fun task_calls :: "task \<Rightarrow> nat" where
  "task_calls (WorkerChunk c) = c"
| "task_calls t = 0"

definition sentinels_left :: "pool \<Rightarrow> nat" where
  "sentinels_left s =
     count_list (todo s) QUEUE_SENTINEL + sum_list (map held_sentinels (working s))"

definition calls_alive :: "pool \<Rightarrow> nat" where
  "calls_alive s =
     sum_list (map task_calls (tasks s)) + sum_list (map calls_left (working s))"

fun pending_lines :: "qitem \<Rightarrow> nat" where
  "pending_lines (Lines ls) = length (filter (\<lambda>l. l \<noteq> []) ls)"
| "pending_lines (Str s) = 0"

fun held_lines :: "nat \<times> (qitem list \<times> ending) option \<Rightarrow> nat" where
  "held_lines (k, None) = 0"
| "held_lines (k, Some (puts, e)) = sum_list (map pending_lines puts)"

definition expected_lines :: "fetcher \<Rightarrow> qitem \<Rightarrow> nat" where
  "expected_lines fetch x = sum_list (map pending_lines (fst (get_song_lyrics_step fetch x)))"

text \<open>A value on its way to the writer: the sentinel, or a batch of lines without line feed.\<close>

definition payload :: "qitem \<Rightarrow> bool" where
  "payload x = (x = QUEUE_SENTINEL \<or> (\<exists>ls. x = Lines ls \<and> (\<forall>l \<in> set ls. 10 \<notin> set l)))"

text \<open>What a worker may hold: one sentinel to put before it returns, or at most one batch.\<close>

fun held_ok :: "nat \<times> (qitem list \<times> ending) option \<Rightarrow> bool" where
  "held_ok (k, None) = True"
| "held_ok (k, Some (puts, e)) =
     ((e = Break \<and> puts = [QUEUE_SENTINEL])
      \<or> (e \<noteq> Break \<and> QUEUE_SENTINEL \<notin> set puts \<and> length puts \<le> 1 \<and> (\<forall>x \<in> set puts. payload x)))"

text \<open>
  What holds in every state of every run. The values still to be got are URLs of the list
  followed by sentinels, and all the sentinels are there as long as a URL is. Every
  sentinel of the producer is still to be got, or held by a worker, or in the lyrics
  queue, or counted by the writer. No more calls are alive than sentinels are left for
  them. A batch at the end of the lyrics queue is followed, later, by a sentinel.
\<close>

definition queue_order :: "scrape \<Rightarrow> pool \<Rightarrow> bool" where
  "queue_order sc s =
     (\<exists>us j. todo s = map Str us @ replicate j QUEUE_SENTINEL
        \<and> set us \<subseteq> set (url_list sc) \<and> (us = [] \<or> j = nat (max_dl sc)))"

definition sentinels_kept :: "scrape \<Rightarrow> pool \<Rightarrow> bool" where
  "sentinels_kept sc s =
     (int (sentinels_left s + count_list (lyrics_queue s) QUEUE_SENTINEL) + snd (writer_st s)
        = int (nat (max_dl sc))
      \<and> 0 \<le> snd (writer_st s))"

text \<open>
  The tasks are taken in the order of their submission: the producer, the writer, the
  chunks. The producer, once started, runs until both its loops are over; the writer, once
  started, runs until it breaks or raises. Every process of the pool is idle or runs one
  task.
\<close>

definition chunks_only :: "task list \<Rightarrow> bool" where
  "chunks_only ts = (\<forall>t \<in> set ts. \<exists>c. t = WorkerChunk c)"

definition tasks_order :: "scrape \<Rightarrow> pool \<Rightarrow> bool" where
  "tasks_order sc s =
     ((\<exists>cs. tasks s = ProducerTask # WriterTask # cs \<and> chunks_only cs
          \<and> \<not> producing s \<and> \<not> writing s \<and> working s = [] \<and> writer_status s = Waiting
          \<and> idle s = processes sc)
      \<or> (\<exists>cs. tasks s = WriterTask # cs \<and> chunks_only cs
          \<and> \<not> writing s \<and> working s = [] \<and> writer_status s = Waiting
          \<and> (producing s \<or> producer_step (producer_st s) = None)
          \<and> idle s + of_bool (producing s) = processes sc)
      \<or> (chunks_only (tasks s)
          \<and> (producing s \<or> producer_step (producer_st s) = None)
          \<and> (writing s \<longleftrightarrow> writer_status s = Waiting)
          \<and> idle s + of_bool (producing s) + of_bool (writing s) + length (working s)
                = processes sc))"

definition pool_inv :: "scrape \<Rightarrow> pool \<Rightarrow> bool" where
  "pool_inv sc s =
     (queue_order sc s \<and> sentinels_kept sc s \<and> calls_alive s \<le> sentinels_left s
      \<and> (\<forall>w \<in> set (working s). held_ok w)
      \<and> (\<forall>x \<in> set (lyrics_queue s). payload x)
      \<and> (lyrics_queue s \<noteq> [] \<and> last (lyrics_queue s) \<noteq> QUEUE_SENTINEL \<longrightarrow> 0 < sentinels_left s)
      \<and> tasks_order sc s
      \<and> (writer_status s = Exited \<longrightarrow> snd (writer_st s) = max_dl sc \<and> 0 < max_dl sc))"

text \<open>
  As long as no write has raised, the lines in the file, those on their way to the writer
  and those of the URLs still to be fetched add up to the lines of all the URLs.
\<close>

definition lines_kept :: "scrape \<Rightarrow> filesystem \<Rightarrow> pool \<Rightarrow> bool" where
  "lines_kept sc fs s =
     (writer_status s \<noteq> Raised \<longrightarrow>
        file_lines (fst (writer_st s)) (lyric_file sc)
          + sum_list (map pending_lines (lyrics_queue s))
          + sum_list (map held_lines (working s))
          + sum_list (map (expected_lines (fetch_page sc)) (todo s))
        = file_lines fs (lyric_file sc)
          + sum_list (map (nonempty_lines (fetch_page sc)) (url_list sc)))"

text \<open>
  A run in which nothing fails. The pool has a process for the producer, one for the
  writer and one for the chunks; no fetch of a URL of the list raises; the file of the raw
  lyrics can be opened and every line of every batch can be written. The code handles no
  exception, so each of these is needed for the writer to see all the sentinels.
\<close>

definition writable :: "io \<Rightarrow> qitem \<Rightarrow> bool" where
  "writable os x =
     (x = QUEUE_SENTINEL \<or> (\<forall>l \<in> set (iterate x). l \<noteq> [] \<longrightarrow> can_write os (l @ [10])))"

definition scrape_ok :: "scrape \<Rightarrow> bool" where
  "scrape_ok sc =
     (0 < max_dl sc \<and> 3 \<le> processes sc \<and> can_open (host sc) (lyric_file sc)
      \<and> (\<forall>u \<in> set (url_list sc).
            Str u \<noteq> QUEUE_SENTINEL \<and> fetch_page sc u \<noteq> Raises
            \<and> (case batch_of (fetch_page sc) u of
                  None \<Rightarrow> True
                | Some ls \<Rightarrow> writable (host sc) (Lines ls))))"

fun held_fine :: "io \<Rightarrow> nat \<times> (qitem list \<times> ending) option \<Rightarrow> bool" where
  "held_fine os (k, None) = True"
| "held_fine os (k, Some (puts, e)) = (e \<noteq> Raise \<and> (\<forall>x \<in> set puts. writable os x))"

text \<open>
  What holds in every state of such a run: every sentinel left belongs to a call that is
  alive, nothing has raised and nothing held or queued will, and the writer, as long as it
  runs, has counted fewer sentinels than there are workers.
\<close>

definition no_failure :: "scrape \<Rightarrow> pool \<Rightarrow> bool" where
  "no_failure sc s =
     (calls_alive s = sentinels_left s
      \<and> (\<forall>w \<in> set (working s). held_fine (host sc) w)
      \<and> (\<forall>x \<in> set (lyrics_queue s). writable (host sc) x)
      \<and> writer_status s \<noteq> Raised \<and> \<not> worker_raised s
      \<and> (writer_status s = Waiting \<longrightarrow> snd (writer_st s) < max_dl sc))"

text \<open>A state in which a task is waiting or running and no process can take a step.\<close>

definition blocked :: "scrape \<Rightarrow> pool \<Rightarrow> bool" where
  "blocked sc s =
     (\<not> all_done s \<and> exec sc Start s = None \<and> exec sc Produce s = None
      \<and> exec sc Write s = None
      \<and> list_all (\<lambda>i. exec sc (Get i) s = None \<and> exec sc (Put i) s = None)
           [0..<length (working s)])"

section \<open>Properties of the producer\<close>

lemma producer_puts_Cons [simp]:
  "producer_puts (url # urls, k) = Str url # producer_puts (urls, k)"
  by (subst producer_puts.simps) simp

lemma producer_puts_Suc [simp]:
  "producer_puts ([], Suc k) = QUEUE_SENTINEL # producer_puts ([], k)"
  by (subst producer_puts.simps) simp

lemma producer_puts_done [simp]:
  "producer_puts ([], 0) = []"
  by (subst producer_puts.simps) simp

lemma producer_puts_sentinels:
  "producer_puts ([], k) = replicate k QUEUE_SENTINEL"
  by (induction k) simp_all

lemma producer_puts_urls:
  "producer_puts (urls, k) = map Str urls @ replicate k QUEUE_SENTINEL"
  by (induction urls) (simp_all add: producer_puts_sentinels)

text \<open>
  C1. For every list of URLs and every worker count, the values the producer puts on the
  work queue are the URLs in input order followed by exactly that many sentinels.
\<close>

theorem producer_enqueues_urls_then_sentinels:
  "producer urls n = map Str urls @ replicate (nat n) QUEUE_SENTINEL"
  by (simp add: producer_def producer_init_def producer_puts_urls)

section \<open>Properties of the worker\<close>

text \<open>
  C2. On a sentinel the worker puts exactly one sentinel on the result queue and exits,
  leaving the rest of the sequence unconsumed. On a URL whose page has no lyrics block it
  puts nothing and goes on with the rest of the sequence. On a URL whose page has one it
  puts exactly one batch, the lines of the first block, and goes on.
\<close>

theorem get_song_lyrics_cases:
  "get_song_lyrics fetch (QUEUE_SENTINEL # rest) = (Exited, [QUEUE_SENTINEL], rest)
   \<and> (Str u \<noteq> QUEUE_SENTINEL \<and> fetch u = Page html \<and> findall_pre html = [] \<longrightarrow>
        get_song_lyrics_step fetch (Str u) = ([], Continue)
        \<and> get_song_lyrics fetch (Str u # rest) = get_song_lyrics fetch rest)
   \<and> (Str u \<noteq> QUEUE_SENTINEL \<and> fetch u = Page html \<and> findall_pre html = m # ms \<longrightarrow>
        get_song_lyrics_step fetch (Str u) = ([Lines (re_split_newline m)], Continue)
        \<and> get_song_lyrics fetch (Str u # rest) =
            (case get_song_lyrics fetch rest of
               (st, later, left) \<Rightarrow> (st, Lines (re_split_newline m) # later, left)))"
  by (simp add: get_song_lyrics_step_def split: prod.splits)

theorem get_song_lyrics_cases_witness:
  "get_song_lyrics (\<lambda>u. if u = py ''a'' then Page (py ''<pre>x</pre>'') else Page (py ''none''))
     [Str (py ''b''), Str (py ''a''), QUEUE_SENTINEL, Str (py ''c'')] =
   (Exited, [Lines [py ''x''], QUEUE_SENTINEL], [Str (py ''c'')])"
proof -
  let ?fetch = "\<lambda>u. if u = py ''a'' then Page (py ''<pre>x</pre>'') else Page (py ''none'')"
  have a: "Str (py ''a'') \<noteq> QUEUE_SENTINEL" and b: "Str (py ''b'') \<noteq> QUEUE_SENTINEL"
    by (simp_all add: QUEUE_SENTINEL_def py_def)
  have fa: "?fetch (py ''a'') = Page (py ''<pre>x</pre>'')" by simp
  have fb: "?fetch (py ''b'') = Page (py ''none'')" by (simp add: py_def)
  have ma: "findall_pre (py ''<pre>x</pre>'') = [py ''x'']" by code_simp
  have mb: "findall_pre (py ''none'') = []" by code_simp
  have sx: "re_split_newline (py ''x'') = [py ''x'']" by code_simp
  from get_song_lyrics_cases [where fetch = ?fetch and rest = "[Str (py ''c'')]"]
  have 1: "get_song_lyrics ?fetch [QUEUE_SENTINEL, Str (py ''c'')] =
             (Exited, [QUEUE_SENTINEL], [Str (py ''c'')])"
    by blast
  from get_song_lyrics_cases [where fetch = ?fetch and u = "py ''a''"
      and html = "py ''<pre>x</pre>''" and rest = "[QUEUE_SENTINEL, Str (py ''c'')]"
      and m = "py ''x''" and ms = "[]"] a fa ma
  have 2: "get_song_lyrics ?fetch [Str (py ''a''), QUEUE_SENTINEL, Str (py ''c'')] =
             (case get_song_lyrics ?fetch [QUEUE_SENTINEL, Str (py ''c'')] of
                (st, later, left) \<Rightarrow> (st, Lines (re_split_newline (py ''x'')) # later, left))"
    by blast
  from get_song_lyrics_cases [where fetch = ?fetch and u = "py ''b''"
      and html = "py ''none''" and rest = "[Str (py ''a''), QUEUE_SENTINEL, Str (py ''c'')]"] b fb mb
  have 3: "get_song_lyrics ?fetch [Str (py ''b''), Str (py ''a''), QUEUE_SENTINEL, Str (py ''c'')] =
             get_song_lyrics ?fetch [Str (py ''a''), QUEUE_SENTINEL, Str (py ''c'')]"
    by blast
  show ?thesis
    by (simp only: 3 2 1 sx prod.case)
qed

section \<open>Properties of the writer\<close>

lemma written_Nil [simp]: "written os fs f [] = fs"
  by (simp add: written_def)

lemma written_Cons [simp]:
  "written os fs f (x # xs) =
     (if x = QUEUE_SENTINEL then written os fs f xs
      else written os (fst (write_data os fs f (iterate x))) f xs)"
  by (simp add: written_def)

lemma write_lines_succeeds:
  "\<forall>line \<in> set data. can_write os (line @ [10]) \<Longrightarrow> snd (write_lines os text data) = None"
  by (induction data arbitrary: "text") simp_all

lemma write_data_succeeds:
  "can_open os f \<Longrightarrow> \<forall>line \<in> set data. can_write os (line @ [10]) \<Longrightarrow>
   snd (write_data os fs f data) = None"
  using write_lines_succeeds [of data os "case fs f of None \<Rightarrow> [] | Some text \<Rightarrow> text"]
  by (auto simp: write_data_def split: prod.splits)

lemma lyric_writer_step_batch:
  assumes "can_open os f" and "\<forall>line \<in> set (iterate x). can_write os (line @ [10])"
    and "x \<noteq> QUEUE_SENTINEL"
  shows "lyric_writer_step os f N (fs, k) x = ((fst (write_data os fs f (iterate x)), k), Continue)"
proof -
  from assms(1,2) have "snd (write_data os fs f (iterate x)) = None"
    by (rule write_data_succeeds)
  with assms(3) show ?thesis
    by (cases "write_data os fs f (iterate x)") (simp add: lyric_writer_step_def)
qed

lemma lyric_writer_loop_waiting:
  assumes "can_open os f"
  shows "\<forall>x \<in> set items. \<forall>line \<in> set (iterate x). can_write os (line @ [10]) \<Longrightarrow>
   k + int (count_list items QUEUE_SENTINEL) < N \<Longrightarrow>
   lyric_writer_loop os f N (fs, k) items =
     (Waiting, (written os fs f items, k + int (count_list items QUEUE_SENTINEL)), [])"
proof (induction items arbitrary: fs k)
  case Nil
  then show ?case by simp
next
  case (Cons x xs)
  show ?case
  proof (cases "x = QUEUE_SENTINEL")
    case True
    with Cons.prems have "(k + 1) + int (count_list xs QUEUE_SENTINEL) < N" by simp
    with Cons.IH [of "k + 1" fs] Cons.prems(1) True show ?thesis
      by (simp add: lyric_writer_step_def)
  next
    case False
    with Cons.prems have "k + int (count_list xs QUEUE_SENTINEL) < N" by simp
    with Cons.IH [of k "fst (write_data os fs f (iterate x))"] Cons.prems(1) False
      lyric_writer_step_batch [OF assms, of x N fs k]
    show ?thesis by simp
  qed
qed

lemma lyric_writer_loop_exits:
  assumes "can_open os f"
  shows "\<forall>x \<in> set items. \<forall>line \<in> set (iterate x). can_write os (line @ [10]) \<Longrightarrow>
   k < N \<Longrightarrow> N \<le> k + int (count_list items QUEUE_SENTINEL) \<Longrightarrow>
   \<exists>pre post. items = pre @ QUEUE_SENTINEL # post
     \<and> k + int (count_list pre QUEUE_SENTINEL) + 1 = N
     \<and> lyric_writer_loop os f N (fs, k) items = (Exited, (written os fs f pre, N), post)"
proof (induction items arbitrary: fs k)
  case Nil
  then show ?case by simp
next
  case (Cons x xs)
  from Cons.prems(1) have w: "\<forall>x \<in> set xs. \<forall>line \<in> set (iterate x). can_write os (line @ [10])"
    by simp
  show ?case
  proof (cases "x = QUEUE_SENTINEL")
    case True
    show ?thesis
    proof (cases "k + 1 = N")
      case True
      with \<open>x = QUEUE_SENTINEL\<close> have
        "x # xs = [] @ QUEUE_SENTINEL # xs \<and> k + int (count_list [] QUEUE_SENTINEL) + 1 = N
         \<and> lyric_writer_loop os f N (fs, k) (x # xs) = (Exited, (written os fs f [], N), xs)"
        by (simp add: lyric_writer_step_def)
      then show ?thesis by blast
    next
      case False
      with Cons.prems \<open>x = QUEUE_SENTINEL\<close>
      have "k + 1 < N" "N \<le> (k + 1) + int (count_list xs QUEUE_SENTINEL)" by auto
      from Cons.IH [OF w this, of fs] obtain pre post where
        "xs = pre @ QUEUE_SENTINEL # post"
        "k + 1 + int (count_list pre QUEUE_SENTINEL) + 1 = N"
        "lyric_writer_loop os f N (fs, k + 1) xs = (Exited, (written os fs f pre, N), post)"
        by blast
      with False \<open>x = QUEUE_SENTINEL\<close> have
        "x # xs = (x # pre) @ QUEUE_SENTINEL # post
         \<and> k + int (count_list (x # pre) QUEUE_SENTINEL) + 1 = N
         \<and> lyric_writer_loop os f N (fs, k) (x # xs) =
             (Exited, (written os fs f (x # pre), N), post)"
        by (simp add: lyric_writer_step_def)
      then show ?thesis by blast
    qed
  next
    case False
    with Cons.prems have "k < N" "N \<le> k + int (count_list xs QUEUE_SENTINEL)" by auto
    from Cons.IH [OF w this, of "fst (write_data os fs f (iterate x))"] obtain pre post where
      "xs = pre @ QUEUE_SENTINEL # post"
      "k + int (count_list pre QUEUE_SENTINEL) + 1 = N"
      "lyric_writer_loop os f N (fst (write_data os fs f (iterate x)), k) xs =
         (Exited, (written os (fst (write_data os fs f (iterate x))) f pre, N), post)"
      by blast
    with False Cons.prems(1) lyric_writer_step_batch [OF assms, of x N fs k] have
      "x # xs = (x # pre) @ QUEUE_SENTINEL # post
       \<and> k + int (count_list (x # pre) QUEUE_SENTINEL) + 1 = N
       \<and> lyric_writer_loop os f N (fs, k) (x # xs) =
           (Exited, (written os fs f (x # pre), N), post)"
      by simp
    then show ?thesis by blast
  qed
qed

lemma count_list_take_le: "count_list (take n xs) y \<le> count_list xs y"
  by (induction xs arbitrary: n) (auto simp: take_Cons split: nat.splits intro: le_SucI)

text \<open>
  C3, as amended. Let the sequence on the result queue hold exactly \<open>N\<close> sentinels, for
  \<open>N \<ge> 1\<close> workers, and let the output file open and every line be written without an
  exception. Then the writer exits at the last sentinel with its counter at \<open>N\<close>, having
  written every batch before it, and on every shorter prefix of what it consumes it is
  still waiting.
\<close>

theorem lyric_writer_exits_at_last_sentinel:
  assumes "0 < N" and "int (count_list items QUEUE_SENTINEL) = N"
    and "can_open os f"
    and "\<forall>lyrics \<in> set items. \<forall>line \<in> set (iterate lyrics). can_write os (line @ [10])"
  shows "\<exists>pre post. items = pre @ QUEUE_SENTINEL # post \<and> QUEUE_SENTINEL \<notin> set post
     \<and> lyric_writer os fs f items N = (Exited, (written os fs f pre, N), post)
     \<and> (\<forall>n \<le> length pre. lyric_writer os fs f (take n items) N =
           (Waiting,
            (written os fs f (take n pre), int (count_list (take n pre) QUEUE_SENTINEL)), []))"
proof -
  from assms lyric_writer_loop_exits [OF assms(3,4), of 0 N fs] obtain pre post where
    items: "items = pre @ QUEUE_SENTINEL # post"
    and pre: "int (count_list pre QUEUE_SENTINEL) + 1 = N"
    and run: "lyric_writer_loop os f N (fs, 0) items = (Exited, (written os fs f pre, N), post)"
    by auto
  from assms(2) items pre have "count_list post QUEUE_SENTINEL = 0" by simp
  then have post: "QUEUE_SENTINEL \<notin> set post"
    by (simp add: count_list_0_iff)
  have "lyric_writer os fs f (take n items) N =
           (Waiting,
            (written os fs f (take n pre), int (count_list (take n pre) QUEUE_SENTINEL)), [])"
    if "n \<le> length pre" for n
  proof -
    from that items have t: "take n items = take n pre" by simp
    have "count_list (take n pre) QUEUE_SENTINEL \<le> count_list pre QUEUE_SENTINEL"
      by (rule count_list_take_le)
    with pre have c: "0 + int (count_list (take n pre) QUEUE_SENTINEL) < N" by simp
    from assms(4) items have
      "\<forall>x \<in> set (take n pre). \<forall>line \<in> set (iterate x). can_write os (line @ [10])"
      by (auto dest: in_set_takeD)
    from lyric_writer_loop_waiting [OF assms(3) this c, of fs] t show ?thesis
      by (simp add: lyric_writer_def)
  qed
  with items post run show ?thesis
    unfolding lyric_writer_def by blast
qed

theorem lyric_writer_exits_at_last_sentinel_witness:
  "\<exists>pre post.
     [Lines [py ''a''], QUEUE_SENTINEL, Lines [py ''b''], QUEUE_SENTINEL, Lines [py ''c'']] =
       pre @ QUEUE_SENTINEL # post
     \<and> QUEUE_SENTINEL \<notin> set post
     \<and> lyric_writer \<lparr>can_open = (\<lambda>name. True), can_write = (\<lambda>text. True)\<rparr> Map.empty (py ''raw'')
          [Lines [py ''a''], QUEUE_SENTINEL, Lines [py ''b''], QUEUE_SENTINEL, Lines [py ''c'']] 2 =
        (Exited,
         (written \<lparr>can_open = (\<lambda>name. True), can_write = (\<lambda>text. True)\<rparr> Map.empty (py ''raw'') pre,
          2), post)"
proof -
  let ?os = "\<lparr>can_open = (\<lambda>name. True), can_write = (\<lambda>text. True)\<rparr>"
  let ?items = "[Lines [py ''a''], QUEUE_SENTINEL, Lines [py ''b''], QUEUE_SENTINEL, Lines [py ''c'']]"
  have h1: "0 < (2::int)" by simp
  have h2: "int (count_list ?items QUEUE_SENTINEL) = 2"
    by (simp add: QUEUE_SENTINEL_def)
  have h3: "can_open ?os (py ''raw'')" by simp
  have h4: "\<forall>lyrics \<in> set ?items. \<forall>line \<in> set (iterate lyrics). can_write ?os (line @ [10])"
    by simp
  from lyric_writer_exits_at_last_sentinel [OF h1 h2 h3 h4, of Map.empty]
  show ?thesis by blast
qed

text \<open>
  C3 as stated fails: the exception of \<^verbatim>\<open>open\<close> in \<^verbatim>\<open>write_data\<close> is not handled, so on a
  file name that cannot be opened the writer leaves its loop at the first batch, with no
  sentinel counted.
\<close>

theorem lyric_writer_exits_on_exception:
  "lyric_writer \<lparr>can_open = (\<lambda>name. False), can_write = (\<lambda>text. True)\<rparr> Map.empty (py ''raw'')
     [Lines [py ''a''], QUEUE_SENTINEL] 1 =
   (Raised, (Map.empty, 0), [QUEUE_SENTINEL])"
  by (simp add: lyric_writer_def lyric_writer_step_def write_data_def QUEUE_SENTINEL_def)

section \<open>The sentinel and the payloads\<close>

lemma startswith_append: "startswith (p @ s) p"
  by (induction p) simp_all

text \<open>
  C9. Every URL that \<^verbatim>\<open>build_urls\<close> returns begins with the prefix
  \<^verbatim>\<open>https://www.lyrics.com/db-print.php?id=\<close> and differs from the sentinel, and no
  line batch equals the sentinel.
\<close>

theorem sentinel_disjoint_from_payloads:
  "(build_urls resp = Inr urls \<longrightarrow>
      (\<forall>url \<in> set urls.
         startswith url (py ''https://www.lyrics.com/db-print.php?id='')
         \<and> Str url \<noteq> QUEUE_SENTINEL))
   \<and> Lines batch \<noteq> QUEUE_SENTINEL"
proof -
  have p: "SITE @ py ''db-print.php?id='' = py ''https://www.lyrics.com/db-print.php?id=''"
    by (simp add: SITE_def py_def)
  have a: "startswith (SITE @ py ''db-print.php?id='' @ i) (py ''https://www.lyrics.com/db-print.php?id='')" for i
    using startswith_append [of "py ''https://www.lyrics.com/db-print.php?id=''" i]
    by (simp flip: p)
  have b: "Str (SITE @ py ''db-print.php?id='' @ i) \<noteq> QUEUE_SENTINEL" for i
    by (simp add: SITE_def QUEUE_SENTINEL_def py_def)
  have "startswith url (py ''https://www.lyrics.com/db-print.php?id='') \<and> Str url \<noteq> QUEUE_SENTINEL"
    if "build_urls resp = Inr urls" and "url \<in> set urls" for url
  proof -
    from that obtain song_id where "url = SITE @ py ''db-print.php?id='' @ song_id"
      by (auto simp: build_urls_def Let_def split: response.splits if_splits)
    with a b show ?thesis by simp
  qed
  moreover have "Lines batch \<noteq> QUEUE_SENTINEL"
    by (simp add: QUEUE_SENTINEL_def)
  ultimately show ?thesis by blast
qed


theorem sentinel_disjoint_from_payloads_witness:
  "build_urls (Page (py ''href='' @ [34] @ py ''/lyric/123/Song''))
     = Inr [py ''https://www.lyrics.com/db-print.php?id=123'']
   \<and> Str (py ''https://www.lyrics.com/db-print.php?id=123'') \<noteq> QUEUE_SENTINEL"
proof -
  have b: "build_urls (Page (py ''href='' @ [34] @ py ''/lyric/123/Song''))
     = Inr [py ''https://www.lyrics.com/db-print.php?id=123'']"
    by code_simp
  from sentinel_disjoint_from_payloads
    [of "Page (py ''href='' @ [34] @ py ''/lyric/123/Song'')"
        "[py ''https://www.lyrics.com/db-print.php?id=123'']"] b
  show ?thesis by simp
qed

section \<open>Properties of textwrap.wrap and of the cleaning\<close>
























lemma make_phrases_unfold:
  "make_phrases ud line a =
     (if int (length (clean_line ud line)) < arg_min a then Inr []
      else if int (length (clean_line ud line)) > arg_max a
        then textwrap_wrap (clean_line ud line) (arg_max a)
      else Inr [clean_line ud line])"
  by (simp add: make_phrases_def Let_def split: sum.splits)


lemma clean_line_ascii:
  assumes "ascii_compatible ud" and "is_ascii line"
  shows "clean_line ud line =
     sub_spaces False (filter allowed_char (sub_hyphens (map ascii_lower line)))"
proof -
  from assms have l: "lower ud line = map ascii_lower line"
    by (simp add: ascii_compatible_def)
  from assms(2) have a: "is_ascii (sub_hyphens (map ascii_lower line))"
    by (auto simp: is_ascii_def sub_hyphens_def ascii_lower_def)
  with assms(1) have "filter (\<lambda>c. combining ud c = 0) (sub_hyphens (map ascii_lower line))
      = sub_hyphens (map ascii_lower line)"
    by (auto simp: ascii_compatible_def is_ascii_def)
  with assms(1) a have "remove_accents ud (sub_hyphens (map ascii_lower line))
      = sub_hyphens (map ascii_lower line)"
    by (simp add: remove_accents_def ascii_compatible_def)
  with l show ?thesis by (simp add: clean_line_def)
qed

lemma ascii_unicodedata_compatible: "ascii_compatible ascii_unicodedata"
  by (simp add: ascii_compatible_def ascii_unicodedata_def)


section \<open>Properties of make\_phrases\<close>




text \<open>
  C10. With Unicode tables that act on ASCII text as Python's do, there is a line that
  \<^verbatim>\<open>make_phrases\<close> wraps, at minimum 8 and maximum 40, into phrases one of which is
  shorter than the minimum: the fragments of \<^verbatim>\<open>textwrap.wrap\<close> are not checked against it.
\<close>

theorem make_phrases_emits_short_fragment:
  "ascii_compatible ud \<Longrightarrow>
   \<exists>line a ps p. arg_min a = 8 \<and> arg_max a = 40 \<and> arg_max a < int (length (clean_line ud line))
     \<and> make_phrases ud line a = Inr ps \<and> p \<in> set ps \<and> int (length p) < arg_min a"
proof -
  assume u: "ascii_compatible ud"
  let ?a = "\<lparr>artist = None, infile = None, arg_min = 8, arg_max = 40, max_concurrent_dl = 50\<rparr>"
  let ?l = "py ''aaaaaaaaaaaaaaaaaaaaaaaaaaaaaaaaaaaaaa bbbbbb''"
  have "is_ascii ?l" by (simp add: is_ascii_def py_def)
  with u have c: "clean_line ud ?l = ?l"
    by (simp add: clean_line_ascii) (simp add: sub_hyphens_def ascii_lower_def allowed_char_def isspace_def py_def)
  have l: "length ?l = 45" by (simp add: py_def)
  have w: "textwrap_wrap ?l 40 = Inr [py ''aaaaaaaaaaaaaaaaaaaaaaaaaaaaaaaaaaaaaa'', py ''bbbbbb'']"
    by (simp add: textwrap_wrap_def split_chunks_def munge_whitespace_def textwrap_whitespace_def wrap_chunks.simps wrap_line_def blank_def isspace_def py_def)
  from c l w have m: "make_phrases ud ?l ?a = Inr [py ''aaaaaaaaaaaaaaaaaaaaaaaaaaaaaaaaaaaaaa'', py ''bbbbbb'']"
    by (simp add: make_phrases_unfold)
  have s: "int (length (py ''bbbbbb'')) < 8" by (simp add: py_def)
  from c l m s have "arg_min ?a = 8 \<and> arg_max ?a = 40 \<and> arg_max ?a < int (length (clean_line ud ?l))
     \<and> make_phrases ud ?l ?a = Inr [py ''aaaaaaaaaaaaaaaaaaaaaaaaaaaaaaaaaaaaaa'', py ''bbbbbb'']
     \<and> py ''bbbbbb'' \<in> set [py ''aaaaaaaaaaaaaaaaaaaaaaaaaaaaaaaaaaaaaa'', py ''bbbbbb''] \<and> int (length (py ''bbbbbb'')) < arg_min ?a"
    by simp
  then show ?thesis by blast
qed

theorem make_phrases_emits_short_fragment_witness:
  "\<exists>line a ps p. arg_min a = 8 \<and> arg_max a = 40
     \<and> arg_max a < int (length (clean_line ascii_unicodedata line))
     \<and> make_phrases ascii_unicodedata line a = Inr ps \<and> p \<in> set ps \<and> int (length p) < arg_min a"
  using make_phrases_emits_short_fragment [OF ascii_unicodedata_compatible] .






section \<open>Properties of the pool\<close>

lemma sum_list_map_update:
  "i < length w \<Longrightarrow> sum_list (map f (w[i := v])) + f (w ! i) = sum_list (map f w) + (f v :: nat)"
proof (induction w arbitrary: i)
  case Nil
  then show ?case by simp
next
  case (Cons a w)
  then show ?case by (cases i) auto
qed

lemma sum_list_map_remove:
  "i < length w \<Longrightarrow>
   sum_list (map f (take i w @ drop (Suc i) w)) + f (w ! i) = (sum_list (map f w) :: nat)"
proof -
  assume "i < length w"
  then have "w = take i w @ w ! i # drop (Suc i) w" by (rule id_take_nth_drop)
  then have "sum_list (map f w) = sum_list (map f (take i w @ w ! i # drop (Suc i) w))" by simp
  then show ?thesis by simp
qed

lemma step_puts_short: "length (fst (get_song_lyrics_step fetch x)) \<le> 1"
  by (auto simp: get_song_lyrics_step_def split: qitem.splits response.splits list.splits)

lemma producer_puts_step:
  "producer_step st = Some (v, st') \<Longrightarrow> producer_puts st = v # producer_puts st'"
  by (subst producer_puts.simps) simp

lemma producer_puts_end: "producer_step st = None \<Longrightarrow> producer_puts st = []"
  by (subst producer_puts.simps) simp

lemma producer_step_length:
  "producer_step st = Some (v, st') \<Longrightarrow>
   length (fst st) + snd st = Suc (length (fst st') + snd st')"
  by (cases st rule: producer_step.cases) auto

text \<open>The shapes of the events that can happen, for the case analyses below.\<close>

lemma get_item_Some:
  assumes "get_item sc i s = Some s'"
  obtains k url rest where "i < length (working s)" and "working s ! i = (k, None)"
    and "input_queue s = url # rest"
    and "s' = s\<lparr>input_queue := rest,
        working := (working s)[i := (k, Some (get_song_lyrics_step (fetch_page sc) url))]\<rparr>"
  using assms
  by (auto simp: get_item_def split: if_splits prod.splits option.splits list.splits)

lemma put_held_Some:
  assumes "put_held i s = Some s'"
  obtains (Continue) k puts where "i < length (working s)"
      and "working s ! i = (k, Some (puts, Continue))"
      and "s' = s\<lparr>lyrics_queue := lyrics_queue s @ puts, working := (working s)[i := (k, None)]\<rparr>"
  | (Next) k puts where "i < length (working s)"
      and "working s ! i = (Suc k, Some (puts, Break))"
      and "s' = s\<lparr>lyrics_queue := lyrics_queue s @ puts, working := (working s)[i := (k, None)]\<rparr>"
  | (Return) puts where "i < length (working s)"
      and "working s ! i = (0, Some (puts, Break))"
      and "s' = s\<lparr>lyrics_queue := lyrics_queue s @ puts,
                   working := take i (working s) @ drop (Suc i) (working s),
                   idle := idle s + 1\<rparr>"
  | (Raise) k puts where "i < length (working s)"
      and "working s ! i = (k, Some (puts, Raise))"
      and "s' = s\<lparr>lyrics_queue := lyrics_queue s @ puts,
                   working := take i (working s) @ drop (Suc i) (working s),
                   idle := idle s + 1, worker_raised := True\<rparr>"
proof -
  from assms obtain k puts e where i: "i < length (working s)"
    and w: "working s ! i = (k, Some (puts, e))"
    by (auto simp: put_held_def split: if_splits prod.splits option.splits nat.splits)
  show ?thesis
  proof (cases e)
    case Continue
    with assms i w that(1) show ?thesis by (cases k) (simp_all add: put_held_def)
  next
    case Break
    with assms i w that(2,3) show ?thesis by (cases k) (simp_all add: put_held_def)
  next
    case Raise
    with assms i w that(4) show ?thesis by (cases k) (simp_all add: put_held_def)
  qed
qed

lemma exec_work_left:
  assumes "exec sc ev s = Some s'"
  shows "work_left s' < work_left s"
proof (cases ev)
  case Start
  with assms show ?thesis
    by (auto simp: start_task_def work_left_def split: if_splits list.splits task.splits nat.splits)
next
  case Produce
  show ?thesis
  proof (cases "producer_step (producer_st s)")
    case None
    with assms Produce show ?thesis
      by (auto simp: produce_item_def work_left_def split: if_splits)
  next
    case (Some a)
    obtain v st where a: "a = (v, st)" by (cases a) auto
    from producer_step_length [of "producer_st s" v st] Some a
    have "length (fst (producer_st s)) + snd (producer_st s) = Suc (length (fst st) + snd st)"
      by simp
    with assms Produce Some a show ?thesis
      by (auto simp: produce_item_def work_left_def split: if_splits)
  qed
next
  case Write
  with assms show ?thesis
    by (auto simp: write_item_def work_left_def split: if_splits list.splits prod.splits ending.splits)
next
  case (Get i)
  with assms have "get_item sc i s = Some s'" by simp
  then show ?thesis
  proof (cases rule: get_item_Some)
    case (1 k url rest)
    obtain puts e where g: "get_song_lyrics_step (fetch_page sc) url = (puts, e)"
      by (cases "get_song_lyrics_step (fetch_page sc) url") auto
    from step_puts_short [of "fetch_page sc" url] g have "length puts \<le> 1" by simp
    with sum_list_map_update [OF 1(1), of worker_weight "(k, Some (puts, e))"] 1 g
    show ?thesis by (simp add: work_left_def)
  qed
next
  case (Put i)
  with assms have "put_held i s = Some s'" by simp
  then show ?thesis
  proof (cases rule: put_held_Some)
    case (Continue k puts)
    with sum_list_map_update [OF Continue(1), of worker_weight "(k, None)"] show ?thesis
      by (simp add: work_left_def)
  next
    case (Next k puts)
    with sum_list_map_update [OF Next(1), of worker_weight "(k, None)"] show ?thesis
      by (simp add: work_left_def)
  next
    case (Return puts)
    with sum_list_map_remove [OF Return(1), of worker_weight] show ?thesis
      by (simp add: work_left_def)
  next
    case (Raise k puts)
    with sum_list_map_remove [OF Raise(1), of worker_weight] show ?thesis
      by (simp add: work_left_def)
  qed
qed


lemma start_task_Some:
  assumes "start_task s = Some s'"
  obtains (Producer) ts where "0 < idle s" and "tasks s = ProducerTask # ts"
      and "s' = s\<lparr>idle := idle s - 1, tasks := ts, producing := True\<rparr>"
  | (Writer) ts where "0 < idle s" and "tasks s = WriterTask # ts"
      and "s' = s\<lparr>idle := idle s - 1, tasks := ts, writing := True\<rparr>"
  | (Empty) ts where "0 < idle s" and "tasks s = WorkerChunk 0 # ts" and "s' = s\<lparr>tasks := ts\<rparr>"
  | (Chunk) k ts where "0 < idle s" and "tasks s = WorkerChunk (Suc k) # ts"
      and "s' = s\<lparr>idle := idle s - 1, tasks := ts, working := working s @ [(k, None)]\<rparr>"
  using assms
  by (auto simp: start_task_def split: if_splits list.splits task.splits nat.splits)

lemma produce_item_Some:
  assumes "produce_item sc s = Some s'"
  obtains (Finish) "producing s" and "producer_step (producer_st s) = None"
      and "s' = s\<lparr>producing := False, idle := idle s + 1\<rparr>"
  | (Item) v st where "producing s" and "producer_step (producer_st s) = Some (v, st)"
      and "\<not> full (maxsize (max_dl sc)) (input_queue s)"
      and "s' = s\<lparr>input_queue := input_queue s @ [v], producer_st := st\<rparr>"
  using assms
  by (auto simp: produce_item_def split: if_splits option.splits)

lemma write_item_Some:
  assumes "write_item sc s = Some s'"
  obtains (Continue) lyrics rest st where "writing s" and "lyrics_queue s = lyrics # rest"
      and "lyric_writer_step (host sc) (lyric_file sc) (max_dl sc) (writer_st s) lyrics
             = (st, Continue)"
      and "s' = s\<lparr>lyrics_queue := rest, writer_st := st\<rparr>"
  | (Break) lyrics rest st where "writing s" and "lyrics_queue s = lyrics # rest"
      and "lyric_writer_step (host sc) (lyric_file sc) (max_dl sc) (writer_st s) lyrics
             = (st, Break)"
      and "s' = s\<lparr>lyrics_queue := rest, writer_st := st, writing := False,
                   idle := idle s + 1, writer_status := Exited\<rparr>"
  | (Raise) lyrics rest st where "writing s" and "lyrics_queue s = lyrics # rest"
      and "lyric_writer_step (host sc) (lyric_file sc) (max_dl sc) (writer_st s) lyrics
             = (st, Raise)"
      and "s' = s\<lparr>lyrics_queue := rest, writer_st := st, writing := False,
                   idle := idle s + 1, writer_status := Raised\<rparr>"
  using assms
  by (auto simp: write_item_def split: if_splits list.splits prod.splits ending.splits)

lemma step_sentinels:
  "count_list (fst (get_song_lyrics_step fetch x)) QUEUE_SENTINEL = (if x = QUEUE_SENTINEL then 1 else 0)"
  by (auto simp: get_song_lyrics_step_def QUEUE_SENTINEL_def
      split: qitem.splits response.splits list.splits)

lemma re_split_newline_acc_no_lf:
  "10 \<notin> set acc \<Longrightarrow> l \<in> set (re_split_newline_acc acc s) \<Longrightarrow> 10 \<notin> set l"
  by (induction acc s rule: re_split_newline_acc.induct) (auto split: if_splits)

lemma step_held_ok: "held_ok (k, Some (get_song_lyrics_step fetch x))"
  by (auto simp: get_song_lyrics_step_def QUEUE_SENTINEL_def payload_def re_split_newline_def
      split: qitem.splits response.splits list.splits dest: re_split_newline_acc_no_lf [rotated])

lemma writer_step_count:
  "lyric_writer_step os f N st x = (st', e) \<Longrightarrow>
   snd st' = snd st + (if x = QUEUE_SENTINEL then 1 else 0)"
  by (auto simp: lyric_writer_step_def split: prod.splits if_splits option.splits)

lemma writer_step_Break:
  "lyric_writer_step os f N st x = (st', Break) \<Longrightarrow> x = QUEUE_SENTINEL \<and> snd st' = N"
  by (auto simp: lyric_writer_step_def split: prod.splits if_splits option.splits)

lemma exec_todo:
  assumes "exec sc ev s = Some s'"
  shows "(todo s' = todo s \<and> (\<forall>i. ev \<noteq> Get i))
     \<or> (\<exists>i k url rest. ev = Get i \<and> todo s = url # todo s' \<and> input_queue s = url # rest
           \<and> i < length (working s) \<and> working s ! i = (k, None)
           \<and> working s' = (working s)[i := (k, Some (get_song_lyrics_step (fetch_page sc) url))])"
proof (cases ev)
  case Start
  with assms have "start_task s = Some s'" by simp
  then have "todo s' = todo s"
    by (cases rule: start_task_Some) (simp_all add: todo_def)
  with Start show ?thesis by simp
next
  case Produce
  with assms have "produce_item sc s = Some s'" by simp
  then have "todo s' = todo s"
    by (cases rule: produce_item_Some) (simp_all add: todo_def producer_puts_step)
  with Produce show ?thesis by simp
next
  case Write
  with assms have "write_item sc s = Some s'" by simp
  then have "todo s' = todo s"
    by (cases rule: write_item_Some) (simp_all add: todo_def)
  with Write show ?thesis by simp
next
  case (Get i)
  with assms have "get_item sc i s = Some s'" by simp
  then show ?thesis
    using Get by (cases rule: get_item_Some) (auto simp: todo_def)
next
  case (Put i)
  with assms have "put_held i s = Some s'" by simp
  then have "todo s' = todo s"
    by (cases rule: put_held_Some) (simp_all add: todo_def)
  with Put show ?thesis by simp
qed

lemma exec_queue_order:
  assumes "exec sc ev s = Some s'" and "queue_order sc s"
  shows "queue_order sc s'"
proof -
  from assms(2) obtain us j where t: "todo s = map Str us @ replicate j QUEUE_SENTINEL"
    and u: "set us \<subseteq> set (url_list sc)" and o: "us = [] \<or> j = nat (max_dl sc)"
    by (auto simp: queue_order_def)
  from exec_todo [OF assms(1)] show ?thesis
  proof
    assume "todo s' = todo s \<and> (\<forall>i. ev \<noteq> Get i)"
    with assms(2) show ?thesis by (simp add: queue_order_def)
  next
    assume "\<exists>i k url rest. ev = Get i \<and> todo s = url # todo s' \<and> input_queue s = url # rest
           \<and> i < length (working s) \<and> working s ! i = (k, None)
           \<and> working s' = (working s)[i := (k, Some (get_song_lyrics_step (fetch_page sc) url))]"
    then obtain url where c: "todo s = url # todo s'" by blast
    show ?thesis
    proof (cases us)
      case Nil
      with t c obtain j' where "j = Suc j'" and "todo s' = map Str [] @ replicate j' QUEUE_SENTINEL"
        by (cases j) auto
      then show ?thesis unfolding queue_order_def by (intro exI [of _ "[]"] exI [of _ j']) simp
    next
      case (Cons v vs)
      with t c have "todo s' = map Str vs @ replicate j QUEUE_SENTINEL" by simp
      moreover from Cons u have "set vs \<subseteq> set (url_list sc)" by simp
      moreover from Cons o have "vs = [] \<or> j = nat (max_dl sc)" by simp
      ultimately show ?thesis unfolding queue_order_def by blast
    qed
  qed
qed


lemma exec_sentinels_left:
  assumes "exec sc ev s = Some s'"
  shows "(\<exists>i k puts e. ev = Put i \<and> i < length (working s) \<and> working s ! i = (k, Some (puts, e))
            \<and> lyrics_queue s' = lyrics_queue s @ puts
            \<and> sentinels_left s' + count_list puts QUEUE_SENTINEL = sentinels_left s)
     \<or> ((\<forall>i. ev \<noteq> Put i) \<and> sentinels_left s' = sentinels_left s)"
proof (cases ev)
  case Start
  with assms have "start_task s = Some s'" by simp
  then have "sentinels_left s' = sentinels_left s"
    by (cases rule: start_task_Some) (simp_all add: sentinels_left_def todo_def)
  with Start show ?thesis by simp
next
  case Produce
  with assms have "produce_item sc s = Some s'" by simp
  then have "sentinels_left s' = sentinels_left s"
    by (cases rule: produce_item_Some) (simp_all add: sentinels_left_def todo_def producer_puts_step)
  with Produce show ?thesis by simp
next
  case Write
  with assms have "write_item sc s = Some s'" by simp
  then have "sentinels_left s' = sentinels_left s"
    by (cases rule: write_item_Some) (simp_all add: sentinels_left_def todo_def)
  with Write show ?thesis by simp
next
  case (Get i)
  with assms have "get_item sc i s = Some s'" by simp
  then have "sentinels_left s' = sentinels_left s"
  proof (cases rule: get_item_Some)
    case (1 k url rest)
    from sum_list_map_update [OF 1(1), of held_sentinels
        "(k, Some (get_song_lyrics_step (fetch_page sc) url))"] 1(2)
    have "sum_list (map held_sentinels
            ((working s)[i := (k, Some (get_song_lyrics_step (fetch_page sc) url))]))
          = sum_list (map held_sentinels (working s))
            + count_list (fst (get_song_lyrics_step (fetch_page sc) url)) QUEUE_SENTINEL"
      by (cases "get_song_lyrics_step (fetch_page sc) url") simp
    with 1 show ?thesis
      by (simp add: sentinels_left_def todo_def step_sentinels)
  qed
  with Get show ?thesis by simp
next
  case (Put i)
  with assms have "put_held i s = Some s'" by simp
  then have "\<exists>k puts e. i < length (working s) \<and> working s ! i = (k, Some (puts, e))
            \<and> lyrics_queue s' = lyrics_queue s @ puts
            \<and> sentinels_left s' + count_list puts QUEUE_SENTINEL = sentinels_left s"
  proof (cases rule: put_held_Some)
    case (Continue k puts)
    with sum_list_map_update [OF Continue(1), of held_sentinels "(k, None)"] show ?thesis
      by (simp add: sentinels_left_def todo_def)
  next
    case (Next k puts)
    with sum_list_map_update [OF Next(1), of held_sentinels "(k, None)"] show ?thesis
      by (simp add: sentinels_left_def todo_def)
  next
    case (Return puts)
    with sum_list_map_remove [OF Return(1), of held_sentinels] show ?thesis
      by (simp add: sentinels_left_def todo_def)
  next
    case (Raise k puts)
    with sum_list_map_remove [OF Raise(1), of held_sentinels] show ?thesis
      by (simp add: sentinels_left_def todo_def)
  qed
  with Put show ?thesis by blast
qed

lemma exec_lyrics_queue:
  assumes "exec sc ev s = Some s'"
  shows "(\<exists>i k puts e. ev = Put i \<and> i < length (working s) \<and> working s ! i = (k, Some (puts, e))
            \<and> lyrics_queue s' = lyrics_queue s @ puts \<and> writer_st s' = writer_st s)
     \<or> (\<exists>x e. ev = Write \<and> lyrics_queue s = x # lyrics_queue s'
            \<and> lyric_writer_step (host sc) (lyric_file sc) (max_dl sc) (writer_st s) x
                 = (writer_st s', e))
     \<or> (lyrics_queue s' = lyrics_queue s \<and> writer_st s' = writer_st s)"
proof (cases ev)
  case Start
  with assms have "start_task s = Some s'" by simp
  then show ?thesis by (cases rule: start_task_Some) simp_all
next
  case Produce
  with assms have "produce_item sc s = Some s'" by simp
  then show ?thesis by (cases rule: produce_item_Some) simp_all
next
  case Write
  with assms have "write_item sc s = Some s'" by simp
  then show ?thesis using Write by (cases rule: write_item_Some) simp_all
next
  case (Get i)
  with assms have "get_item sc i s = Some s'" by simp
  then show ?thesis by (cases rule: get_item_Some) simp_all
next
  case (Put i)
  with assms have "put_held i s = Some s'" by simp
  then show ?thesis using Put by (cases rule: put_held_Some) simp_all
qed

lemma exec_sentinels_kept:
  assumes "exec sc ev s = Some s'" and "sentinels_kept sc s"
  shows "sentinels_kept sc s'"
proof -
  from exec_lyrics_queue [OF assms(1)] show ?thesis
  proof (elim disjE exE conjE)
    fix i k puts e
    assume p: "ev = Put i" "lyrics_queue s' = lyrics_queue s @ puts" "writer_st s' = writer_st s"
      and w: "working s ! i = (k, Some (puts, e))"
    from exec_sentinels_left [OF assms(1)] p(1) w
    have "sentinels_left s' + count_list puts QUEUE_SENTINEL = sentinels_left s" by auto
    with assms(2) p show ?thesis by (auto simp: sentinels_kept_def)
  next
    fix x e
    assume w: "ev = Write" "lyrics_queue s = x # lyrics_queue s'"
      "lyric_writer_step (host sc) (lyric_file sc) (max_dl sc) (writer_st s) x = (writer_st s', e)"
    from exec_sentinels_left [OF assms(1)] w(1) have "sentinels_left s' = sentinels_left s" by auto
    with assms(2) w(2) writer_step_count [OF w(3)] show ?thesis
      by (auto simp: sentinels_kept_def split: if_splits)
  next
    assume u: "lyrics_queue s' = lyrics_queue s" "writer_st s' = writer_st s"
    have "sentinels_left s' = sentinels_left s"
    proof (cases "\<exists>i. ev = Put i")
      case True
      then obtain i where "ev = Put i" ..
      with exec_sentinels_left [OF assms(1)] u(1) obtain puts where
        "lyrics_queue s = lyrics_queue s @ puts"
        "sentinels_left s' + count_list puts QUEUE_SENTINEL = sentinels_left s"
        by auto
      then show ?thesis by simp
    next
      case False
      with exec_sentinels_left [OF assms(1)] show ?thesis by auto
    qed
    with assms(2) u show ?thesis by (simp add: sentinels_kept_def)
  qed
qed

lemma exec_calls_alive:
  assumes "exec sc ev s = Some s'" and "\<forall>w \<in> set (working s). held_ok w"
    and "calls_alive s \<le> sentinels_left s"
  shows "calls_alive s' \<le> sentinels_left s'"
proof (cases ev)
  case Start
  with assms(1) have "start_task s = Some s'" by simp
  then have "calls_alive s' = calls_alive s"
    by (cases rule: start_task_Some) (simp_all add: calls_alive_def)
  with exec_sentinels_left [OF assms(1)] Start assms(3) show ?thesis by auto
next
  case Produce
  with assms(1) have "produce_item sc s = Some s'" by simp
  then have "calls_alive s' = calls_alive s"
    by (cases rule: produce_item_Some) (simp_all add: calls_alive_def)
  with exec_sentinels_left [OF assms(1)] Produce assms(3) show ?thesis by auto
next
  case Write
  with assms(1) have "write_item sc s = Some s'" by simp
  then have "calls_alive s' = calls_alive s"
    by (cases rule: write_item_Some) (simp_all add: calls_alive_def)
  with exec_sentinels_left [OF assms(1)] Write assms(3) show ?thesis by auto
next
  case (Get i)
  with assms(1) have "get_item sc i s = Some s'" by simp
  then have "calls_alive s' = calls_alive s"
  proof (cases rule: get_item_Some)
    case (1 k url rest)
    with sum_list_map_update [OF 1(1), of calls_left
        "(k, Some (get_song_lyrics_step (fetch_page sc) url))"]
    show ?thesis by (simp add: calls_alive_def)
  qed
  with exec_sentinels_left [OF assms(1)] Get assms(3) show ?thesis by auto
next
  case (Put i)
  with assms(1) have p: "put_held i s = Some s'" by simp
  from exec_sentinels_left [OF assms(1)] Put obtain k puts e where
    i: "i < length (working s)" and w: "working s ! i = (k, Some (puts, e))"
    and sl: "sentinels_left s' + count_list puts QUEUE_SENTINEL = sentinels_left s"
    by auto
  from assms(2) i w have ok: "held_ok (k, Some (puts, e))"
    by (metis nth_mem)
  from p show ?thesis
  proof (cases rule: put_held_Some)
    case (Continue k' puts')
    with w ok have "count_list puts QUEUE_SENTINEL = 0" by (simp add: count_list_0_iff)
    moreover from Continue sum_list_map_update [OF i, of calls_left "(k', None)"]
    have "calls_alive s' = calls_alive s" by (simp add: calls_alive_def)
    ultimately show ?thesis using sl assms(3) by simp
  next
    case (Next k' puts')
    with w ok have "count_list puts QUEUE_SENTINEL = 1" by auto
    moreover from Next sum_list_map_update [OF i, of calls_left "(k', None)"]
    have "calls_alive s' + 1 = calls_alive s" by (simp add: calls_alive_def)
    ultimately show ?thesis using sl assms(3) by simp
  next
    case (Return puts')
    with w ok have "count_list puts QUEUE_SENTINEL = 1" by auto
    moreover from Return sum_list_map_remove [OF i, of calls_left]
    have "calls_alive s' + 1 = calls_alive s" by (simp add: calls_alive_def)
    ultimately show ?thesis using sl assms(3) by simp
  next
    case (Raise k' puts')
    with w ok have "count_list puts QUEUE_SENTINEL = 0" by (simp add: count_list_0_iff)
    moreover from Raise sum_list_map_remove [OF i, of calls_left]
    have "calls_alive s' \<le> calls_alive s" by (simp add: calls_alive_def)
    ultimately show ?thesis using sl assms(3) by simp
  qed
qed

lemma exec_held_ok:
  assumes "exec sc ev s = Some s'" and "\<forall>w \<in> set (working s). held_ok w"
  shows "\<forall>w \<in> set (working s'). held_ok w"
proof (cases ev)
  case Start
  with assms(1) have "start_task s = Some s'" by simp
  then show ?thesis using assms(2) by (cases rule: start_task_Some) auto
next
  case Produce
  with assms(1) have "produce_item sc s = Some s'" by simp
  then show ?thesis using assms(2) by (cases rule: produce_item_Some) auto
next
  case Write
  with assms(1) have "write_item sc s = Some s'" by simp
  then show ?thesis using assms(2) by (cases rule: write_item_Some) auto
next
  case (Get i)
  with assms(1) have "get_item sc i s = Some s'" by simp
  then show ?thesis using assms(2)
    by (cases rule: get_item_Some) (auto simp: step_held_ok dest!: set_update_subset_insert [THEN subsetD])
next
  case (Put i)
  with assms(1) have "put_held i s = Some s'" by simp
  then show ?thesis using assms(2)
    by (cases rule: put_held_Some)
      (auto dest!: set_update_subset_insert [THEN subsetD] dest: in_set_takeD in_set_dropD)
qed


lemma exec_tasks_order:
  assumes "exec sc ev s = Some s'" and "tasks_order sc s"
  shows "tasks_order sc s'"
proof (cases ev)
  case Start
  with assms(1) have "start_task s = Some s'" by simp
  then show ?thesis using assms(2)
    by (cases rule: start_task_Some) (auto simp: tasks_order_def chunks_only_def)
next
  case Produce
  with assms(1) have "produce_item sc s = Some s'" by simp
  then show ?thesis using assms(2)
    by (cases rule: produce_item_Some) (auto simp: tasks_order_def)
next
  case Write
  with assms(1) have "write_item sc s = Some s'" by simp
  then show ?thesis using assms(2)
    by (cases rule: write_item_Some) (auto simp: tasks_order_def)
next
  case (Get i)
  with assms(1) have "get_item sc i s = Some s'" by simp
  then show ?thesis using assms(2)
    by (cases rule: get_item_Some) (auto simp: tasks_order_def)
next
  case (Put i)
  with assms(1) have "put_held i s = Some s'" by simp
  then show ?thesis using assms(2)
    by (cases rule: put_held_Some) (auto simp: tasks_order_def)
qed

lemma held_ok_payload:
  "held_ok (k, Some (puts, e)) \<Longrightarrow> x \<in> set puts \<Longrightarrow> payload x"
  by (auto simp: payload_def)

lemma exec_payload:
  assumes "exec sc ev s = Some s'" and "\<forall>w \<in> set (working s). held_ok w"
    and "\<forall>x \<in> set (lyrics_queue s). payload x"
  shows "\<forall>x \<in> set (lyrics_queue s'). payload x"
proof -
  from exec_lyrics_queue [OF assms(1)] show ?thesis
  proof (elim disjE exE conjE)
    fix i k puts e
    assume i: "i < length (working s)" and w: "working s ! i = (k, Some (puts, e))"
      and l: "lyrics_queue s' = lyrics_queue s @ puts"
    from assms(2) i w have "held_ok (k, Some (puts, e))" by (metis nth_mem)
    then have "\<forall>x \<in> set puts. payload x" by (blast intro: held_ok_payload)
    with assms(3) l show ?thesis by auto
  next
    fix x e
    assume "lyrics_queue s = x # lyrics_queue s'"
    with assms(3) show ?thesis by simp
  next
    assume "lyrics_queue s' = lyrics_queue s"
    with assms(3) show ?thesis by simp
  qed
qed

lemma working_alive: "i < length (working s) \<Longrightarrow> 0 < calls_alive s"
proof -
  assume i: "i < length (working s)"
  then have "working s ! i \<in> set (working s)" by simp
  then have "calls_left (working s ! i) \<le> sum_list (map calls_left (working s))"
    by (simp add: member_le_sum_list)
  moreover have "0 < calls_left (working s ! i)" by (cases "working s ! i") simp
  ultimately show ?thesis by (simp add: calls_alive_def)
qed

lemma exec_last_batch:
  assumes "exec sc ev s = Some s'" and "\<forall>w \<in> set (working s). held_ok w"
    and "calls_alive s \<le> sentinels_left s"
    and "lyrics_queue s \<noteq> [] \<and> last (lyrics_queue s) \<noteq> QUEUE_SENTINEL \<longrightarrow> 0 < sentinels_left s"
  shows "lyrics_queue s' \<noteq> [] \<and> last (lyrics_queue s') \<noteq> QUEUE_SENTINEL \<longrightarrow> 0 < sentinels_left s'"
proof -
  from exec_lyrics_queue [OF assms(1)] show ?thesis
  proof (elim disjE exE conjE)
    fix i k puts e
    assume ev: "ev = Put i" and i: "i < length (working s)"
      and w: "working s ! i = (k, Some (puts, e))"
      and l: "lyrics_queue s' = lyrics_queue s @ puts"
    from assms(2) i w have ok: "held_ok (k, Some (puts, e))" by (metis nth_mem)
    from exec_sentinels_left [OF assms(1)] ev w
    have sl: "sentinels_left s' + count_list puts QUEUE_SENTINEL = sentinels_left s" by auto
    show ?thesis
    proof (cases "e = Break")
      case True
      with ok l show ?thesis by simp
    next
      case False
      with ok have "count_list puts QUEUE_SENTINEL = 0" by (simp add: count_list_0_iff)
      with sl have "sentinels_left s' = sentinels_left s" by simp
      moreover from working_alive [OF i] assms(3) have "0 < sentinels_left s" by simp
      ultimately show ?thesis by simp
    qed
  next
    fix x e
    assume ev: "ev = Write" and l: "lyrics_queue s = x # lyrics_queue s'"
    from exec_sentinels_left [OF assms(1)] ev have "sentinels_left s' = sentinels_left s" by auto
    with assms(4) l show ?thesis by auto
  next
    assume l: "lyrics_queue s' = lyrics_queue s"
    have "sentinels_left s' = sentinels_left s"
    proof (cases "\<exists>i. ev = Put i")
      case True
      then obtain i where "ev = Put i" ..
      with exec_sentinels_left [OF assms(1)] l obtain puts where
        "lyrics_queue s = lyrics_queue s @ puts"
        "sentinels_left s' + count_list puts QUEUE_SENTINEL = sentinels_left s"
        by auto
      then show ?thesis by simp
    next
      case False
      with exec_sentinels_left [OF assms(1)] show ?thesis by auto
    qed
    with assms(4) l show ?thesis by simp
  qed
qed

lemma exec_writer_status:
  assumes "exec sc ev s = Some s'" and "tasks_order sc s"
  shows "(writer_status s' = writer_status s \<and> (writer_st s' = writer_st s \<or> writer_status s' = Waiting))
     \<or> (\<exists>x st. ev = Write \<and> writer_status s = Waiting \<and> writer_st s' = st
           \<and> lyrics_queue s = x # lyrics_queue s'
           \<and> ((lyric_writer_step (host sc) (lyric_file sc) (max_dl sc) (writer_st s) x = (st, Break)
                 \<and> writer_status s' = Exited)
              \<or> (lyric_writer_step (host sc) (lyric_file sc) (max_dl sc) (writer_st s) x = (st, Raise)
                 \<and> writer_status s' = Raised)))"
proof (cases ev)
  case Start
  with assms(1) have "start_task s = Some s'" by simp
  then show ?thesis by (cases rule: start_task_Some) simp_all
next
  case Produce
  with assms(1) have "produce_item sc s = Some s'" by simp
  then show ?thesis by (cases rule: produce_item_Some) simp_all
next
  case Write
  with assms(1) have "write_item sc s = Some s'" by simp
  then show ?thesis using Write assms(2)
    by (cases rule: write_item_Some) (auto simp: tasks_order_def)
next
  case (Get i)
  with assms(1) have "get_item sc i s = Some s'" by simp
  then show ?thesis by (cases rule: get_item_Some) simp_all
next
  case (Put i)
  with assms(1) have "put_held i s = Some s'" by simp
  then show ?thesis by (cases rule: put_held_Some) simp_all
qed

lemma exec_exited:
  assumes "exec sc ev s = Some s'" and "tasks_order sc s" and "0 \<le> snd (writer_st s)"
    and "writer_status s = Exited \<longrightarrow> snd (writer_st s) = max_dl sc \<and> 0 < max_dl sc"
  shows "writer_status s' = Exited \<longrightarrow> snd (writer_st s') = max_dl sc \<and> 0 < max_dl sc"
proof -
  from exec_writer_status [OF assms(1,2)] show ?thesis
  proof
    assume "writer_status s' = writer_status s
      \<and> (writer_st s' = writer_st s \<or> writer_status s' = Waiting)"
    with assms(4) show ?thesis by auto
  next
    assume "\<exists>x st. ev = Write \<and> writer_status s = Waiting \<and> writer_st s' = st
           \<and> lyrics_queue s = x # lyrics_queue s'
           \<and> ((lyric_writer_step (host sc) (lyric_file sc) (max_dl sc) (writer_st s) x = (st, Break)
                 \<and> writer_status s' = Exited)
              \<or> (lyric_writer_step (host sc) (lyric_file sc) (max_dl sc) (writer_st s) x = (st, Raise)
                 \<and> writer_status s' = Raised))"
    then obtain x where
      "(lyric_writer_step (host sc) (lyric_file sc) (max_dl sc) (writer_st s) x
          = (writer_st s', Break) \<and> writer_status s' = Exited)
       \<or> writer_status s' = Raised"
      by auto
    then show ?thesis
    proof
      assume b: "lyric_writer_step (host sc) (lyric_file sc) (max_dl sc) (writer_st s) x
          = (writer_st s', Break) \<and> writer_status s' = Exited"
      then have "lyric_writer_step (host sc) (lyric_file sc) (max_dl sc) (writer_st s) x
          = (writer_st s', Break)" ..
      from writer_step_Break [OF this] writer_step_count [OF this] assms(3) show ?thesis by auto
    next
      assume "writer_status s' = Raised"
      then show ?thesis by simp
    qed
  qed
qed

lemma exec_pool_inv:
  assumes "exec sc ev s = Some s'" and "pool_inv sc s"
  shows "pool_inv sc s'"
proof -
  from assms(2) have q: "queue_order sc s" and k: "sentinels_kept sc s"
    and a: "calls_alive s \<le> sentinels_left s" and h: "\<forall>w \<in> set (working s). held_ok w"
    and p: "\<forall>x \<in> set (lyrics_queue s). payload x"
    and l: "lyrics_queue s \<noteq> [] \<and> last (lyrics_queue s) \<noteq> QUEUE_SENTINEL \<longrightarrow> 0 < sentinels_left s"
    and t: "tasks_order sc s"
    and e: "writer_status s = Exited \<longrightarrow> snd (writer_st s) = max_dl sc \<and> 0 < max_dl sc"
    by (simp_all add: pool_inv_def)
  from k have n: "0 \<le> snd (writer_st s)" by (simp add: sentinels_kept_def)
  note x = assms(1)
  from exec_queue_order [OF x q] exec_sentinels_kept [OF x k] exec_calls_alive [OF x h a]
    exec_held_ok [OF x h] exec_payload [OF x h p] exec_last_batch [OF x h a l]
    exec_tasks_order [OF x t] exec_exited [OF x t n e]
  show ?thesis unfolding pool_inv_def by blast
qed


lemma write_lines_count:
  "write_lines os text data = (text', None) \<Longrightarrow> \<forall>l \<in> set data. 10 \<notin> set l \<Longrightarrow>
   line_count text' = line_count text + length (filter (\<lambda>l. l \<noteq> []) data)"
proof (induction data arbitrary: "text")
  case Nil
  then show ?case by simp
next
  case (Cons l data)
  show ?case
  proof (cases "l = []")
    case True
    with Cons.prems Cons.IH [of "text"] show ?thesis by simp
  next
    case False
    with Cons.prems have w: "write_lines os (text @ l @ [10]) data = (text', None)"
      by (simp split: if_splits)
    from Cons.prems(2) have "filter (\<lambda>c. c = 10) l = []"
      by (auto simp: filter_empty_conv)
    then have "line_count (text @ l @ [10]) = line_count text + 1"
      by (simp add: line_count_def)
    with Cons.IH [OF w] Cons.prems(2) False show ?thesis by simp
  qed
qed

lemma writer_step_lines:
  assumes "lyric_writer_step os f N st x = (st', e)" and "e \<noteq> Raise" and "payload x"
  shows "file_lines (fst st') f = file_lines (fst st) f + pending_lines x"
proof (cases "x = QUEUE_SENTINEL")
  case True
  with assms(1) show ?thesis
    by (cases st) (auto simp: lyric_writer_step_def QUEUE_SENTINEL_def)
next
  case False
  with assms(3) obtain ls where x: "x = Lines ls" and n: "\<forall>l \<in> set ls. 10 \<notin> set l"
    by (auto simp: payload_def)
  obtain fs k where st: "st = (fs, k)" by (cases st) auto
  from assms(1,2) False x st obtain fs' where
    w: "write_data os fs f ls = (fs', None)" and s: "st' = (fs', k)"
    by (auto simp: lyric_writer_step_def split: prod.splits option.splits)
  from w obtain text' where
    o: "can_open os f"
    and l: "write_lines os (case fs f of None \<Rightarrow> [] | Some text \<Rightarrow> text) ls = (text', None)"
    and f: "fs' = fs(f \<mapsto> text')"
    by (auto simp: write_data_def split: if_splits prod.splits)
  from write_lines_count [OF l n] f st s x show ?thesis
    by (auto simp: file_lines_def line_count_def split: option.splits)
qed

lemma exec_lines_kept:
  assumes "exec sc ev s = Some s'" and "pool_inv sc s" and "lines_kept sc fs s"
  shows "lines_kept sc fs s'"
proof (cases ev)
  case Start
  with assms(1) have "start_task s = Some s'" by simp
  then show ?thesis using assms(3)
    by (cases rule: start_task_Some) (simp_all add: lines_kept_def todo_def)
next
  case Produce
  with assms(1) have "produce_item sc s = Some s'" by simp
  then show ?thesis using assms(3)
    by (cases rule: produce_item_Some) (simp_all add: lines_kept_def todo_def producer_puts_step)
next
  case Write
  from assms(2) have p: "\<forall>x \<in> set (lyrics_queue s). payload x" by (simp add: pool_inv_def)
  from Write assms(1) have "write_item sc s = Some s'" by simp
  then show ?thesis
  proof (cases rule: write_item_Some)
    case (Continue lyrics rest st)
    from assms(2) Continue(1) have "writer_status s = Waiting"
      by (auto simp: pool_inv_def tasks_order_def)
    moreover from p Continue(2) have "payload lyrics" by simp
    from writer_step_lines [OF Continue(3) _ this]
    have "file_lines (fst st) (lyric_file sc)
      = file_lines (fst (writer_st s)) (lyric_file sc) + pending_lines lyrics"
      by simp
    ultimately show ?thesis using assms(3) Continue(2,4)
      by (simp add: lines_kept_def todo_def)
  next
    case (Break lyrics rest st)
    from assms(2) Break(1) have "writer_status s = Waiting"
      by (auto simp: pool_inv_def tasks_order_def)
    moreover from p Break(2) have "payload lyrics" by simp
    from writer_step_lines [OF Break(3) _ this]
    have "file_lines (fst st) (lyric_file sc)
      = file_lines (fst (writer_st s)) (lyric_file sc) + pending_lines lyrics"
      by simp
    ultimately show ?thesis using assms(3) Break(2,4)
      by (simp add: lines_kept_def todo_def)
  next
    case (Raise lyrics rest st)
    then show ?thesis by (simp add: lines_kept_def)
  qed
next
  case (Get i)
  with assms(1) have "get_item sc i s = Some s'" by simp
  then show ?thesis
  proof (cases rule: get_item_Some)
    case (1 k url rest)
    from sum_list_map_update [OF 1(1), of held_lines
        "(k, Some (get_song_lyrics_step (fetch_page sc) url))"] 1(2)
    have "sum_list (map held_lines
            ((working s)[i := (k, Some (get_song_lyrics_step (fetch_page sc) url))]))
          = sum_list (map held_lines (working s)) + expected_lines (fetch_page sc) url"
      by (cases "get_song_lyrics_step (fetch_page sc) url") (simp add: expected_lines_def)
    with 1 assms(3) show ?thesis
      by (auto simp: lines_kept_def todo_def)
  qed
next
  case (Put i)
  with assms(1) have "put_held i s = Some s'" by simp
  then show ?thesis
  proof (cases rule: put_held_Some)
    case (Continue k puts)
    with sum_list_map_update [OF Continue(1), of held_lines "(k, None)"] assms(3) show ?thesis
      by (auto simp: lines_kept_def todo_def)
  next
    case (Next k puts)
    with sum_list_map_update [OF Next(1), of held_lines "(k, None)"] assms(3) show ?thesis
      by (auto simp: lines_kept_def todo_def)
  next
    case (Return puts)
    with sum_list_map_remove [OF Return(1), of held_lines] assms(3) show ?thesis
      by (auto simp: lines_kept_def todo_def)
  next
    case (Raise k puts)
    with sum_list_map_remove [OF Raise(1), of held_lines] assms(3) show ?thesis
      by (auto simp: lines_kept_def todo_def)
  qed
qed

lemma chunksize_positive: "0 < len \<Longrightarrow> 0 < chunksize len procs"
proof -
  assume l: "0 < len"
  show ?thesis
  proof (cases "len mod (procs * 4) = 0")
    case True
    with l have "procs * 4 \<le> len" by (auto simp: mod_eq_0_iff_dvd dest: dvd_imp_le)
    moreover from True l have "0 < procs * 4" by (cases procs) auto
    ultimately have "0 < len div (procs * 4)" by (simp add: div_greater_zero_iff)
    with True l show ?thesis by (simp add: chunksize_def)
  next
    case False
    with l show ?thesis by (simp add: chunksize_def)
  qed
qed

lemma get_tasks_calls:
  "0 < n \<Longrightarrow> sum_list (map task_calls (get_tasks len n)) = len"
proof (induction len n rule: get_tasks.induct)
  case (1 len n)
  show ?case
  proof (cases "len = 0")
    case True
    then show ?thesis by (simp add: get_tasks.simps)
  next
    case False
    with "1.prems" "1.IH" have "sum_list (map task_calls (get_tasks (len - n) n)) = len - n"
      by simp
    with False "1.prems" show ?thesis
      by (subst get_tasks.simps) auto
  qed
qed

lemma get_tasks_chunks: "chunks_only (get_tasks len n)"
proof (induction len n rule: get_tasks.induct)
  case (1 len n)
  show ?case
  proof (cases "len = 0 \<or> n = 0")
    case True
    then show ?thesis by (simp add: get_tasks.simps chunks_only_def)
  next
    case False
    with "1.IH" have "chunks_only (get_tasks (len - n) n)" by simp
    with False show ?thesis
      by (subst get_tasks.simps) (simp add: chunks_only_def)
  qed
qed

lemma init_calls:
  "sum_list (map task_calls (tasks (init_pool sc fs))) = nat (max_dl sc)"
proof (cases "nat (max_dl sc) = 0")
  case True
  then show ?thesis by (simp add: init_pool_def get_tasks.simps)
next
  case False
  then have "0 < chunksize (nat (max_dl sc)) (processes sc)"
    by (simp add: chunksize_positive)
  then show ?thesis by (simp add: init_pool_def get_tasks_calls)
qed

lemma count_list_replicate_same: "count_list (replicate j x) x = j"
  by (induction j) simp_all

lemma count_list_sentinel_urls:
  "\<forall>u \<in> set us. Str u \<noteq> QUEUE_SENTINEL \<Longrightarrow>
   count_list (map Str us @ replicate j QUEUE_SENTINEL) QUEUE_SENTINEL = j"
  by (induction us) (simp_all add: count_list_replicate_same)

lemma init_pool_inv:
  assumes "\<forall>u \<in> set (url_list sc). Str u \<noteq> QUEUE_SENTINEL"
  shows "pool_inv sc (init_pool sc fs)"
proof -
  let ?s = "init_pool sc fs"
  have t: "todo ?s = map Str (url_list sc) @ replicate (nat (max_dl sc)) QUEUE_SENTINEL"
    by (simp add: todo_def init_pool_def producer_init_def producer_puts_urls)
  then have q: "queue_order sc ?s" unfolding queue_order_def by blast
  from count_list_sentinel_urls [OF assms, of "nat (max_dl sc)"] t
  have "count_list (todo ?s) QUEUE_SENTINEL = nat (max_dl sc)" by simp
  then have l: "sentinels_left ?s = nat (max_dl sc)"
    by (simp add: sentinels_left_def) (simp add: init_pool_def)
  then have k: "sentinels_kept sc ?s"
    by (simp add: sentinels_kept_def) (simp add: init_pool_def)
  from init_calls [of sc fs] l have a: "calls_alive ?s \<le> sentinels_left ?s"
    by (simp add: calls_alive_def) (simp add: init_pool_def)
  have o: "tasks_order sc ?s"
    unfolding tasks_order_def
    by (rule disjI1) (simp add: init_pool_def get_tasks_chunks)
  from q k a o show ?thesis
    by (simp add: pool_inv_def) (simp add: init_pool_def)
qed

lemma expected_lines_url:
  "Str u \<noteq> QUEUE_SENTINEL \<Longrightarrow> expected_lines fetch (Str u) = nonempty_lines fetch u"
  by (auto simp: expected_lines_def nonempty_lines_def batch_of_def get_song_lyrics_step_def
      split: response.splits list.splits)

lemma expected_lines_sentinel: "expected_lines fetch QUEUE_SENTINEL = 0"
  by (simp add: expected_lines_def get_song_lyrics_step_def) (simp add: QUEUE_SENTINEL_def)

lemma init_lines_kept:
  assumes "\<forall>u \<in> set (url_list sc). Str u \<noteq> QUEUE_SENTINEL"
  shows "lines_kept sc fs (init_pool sc fs)"
proof -
  let ?s = "init_pool sc fs"
  have t: "todo ?s = map Str (url_list sc) @ replicate (nat (max_dl sc)) QUEUE_SENTINEL"
    by (simp add: todo_def init_pool_def producer_init_def producer_puts_urls)
  from assms have "map (expected_lines (fetch_page sc)) (map Str (url_list sc))
      = map (nonempty_lines (fetch_page sc)) (url_list sc)"
    by (simp add: expected_lines_url)
  moreover have "sum_list (map (expected_lines (fetch_page sc))
      (replicate (nat (max_dl sc)) QUEUE_SENTINEL)) = 0"
    by (simp add: expected_lines_sentinel)
  ultimately have "sum_list (map (expected_lines (fetch_page sc)) (todo ?s))
      = sum_list (map (nonempty_lines (fetch_page sc)) (url_list sc))"
    unfolding t by (simp del: map_map)
  then show ?thesis
    by (simp add: lines_kept_def) (simp add: init_pool_def)
qed

lemma run_invariants:
  "pool_inv sc s \<Longrightarrow> lines_kept sc fs s \<Longrightarrow> run sc sched s = Some s' \<Longrightarrow>
   pool_inv sc s' \<and> lines_kept sc fs s'"
proof (induction sched arbitrary: s)
  case Nil
  then show ?case by simp
next
  case (Cons ev sched)
  from Cons.prems(3) obtain t where e: "exec sc ev s = Some t" and r: "run sc sched t = Some s'"
    by (auto split: option.splits)
  from exec_pool_inv [OF e Cons.prems(1)] exec_lines_kept [OF e Cons.prems(1,2)] r
  show ?case by (rule Cons.IH)
qed

lemma writer_exited_all_consumed:
  assumes "\<forall>u \<in> set (url_list sc). Str u \<noteq> QUEUE_SENTINEL"
    and "pool_inv sc s" and "writer_status s = Exited"
  shows "todo s = [] \<and> lyrics_queue s = [] \<and> working s = []"
proof -
  from assms(2) have q: "queue_order sc s" and k: "sentinels_kept sc s"
    and a: "calls_alive s \<le> sentinels_left s"
    and l: "lyrics_queue s \<noteq> [] \<and> last (lyrics_queue s) \<noteq> QUEUE_SENTINEL \<longrightarrow> 0 < sentinels_left s"
    and e: "writer_status s = Exited \<longrightarrow> snd (writer_st s) = max_dl sc \<and> 0 < max_dl sc"
    by (simp_all add: pool_inv_def)
  from e assms(3) have n: "snd (writer_st s) = max_dl sc" "0 < max_dl sc" by simp_all
  with k have z: "sentinels_left s = 0" "count_list (lyrics_queue s) QUEUE_SENTINEL = 0"
    by (simp_all add: sentinels_kept_def)
  from q obtain us j where t: "todo s = map Str us @ replicate j QUEUE_SENTINEL"
    and u: "set us \<subseteq> set (url_list sc)" and o: "us = [] \<or> j = nat (max_dl sc)"
    by (auto simp: queue_order_def)
  from u assms(1) have "\<forall>u \<in> set us. Str u \<noteq> QUEUE_SENTINEL" by auto
  from count_list_sentinel_urls [OF this, of j] t
  have "count_list (todo s) QUEUE_SENTINEL = j" by simp
  with z(1) have "j = 0" by (simp add: sentinels_left_def)
  with o n(2) t have r1: "todo s = []" by auto
  have r2: "lyrics_queue s = []"
  proof (rule ccontr)
    assume ne: "lyrics_queue s \<noteq> []"
    with z(2) have "last (lyrics_queue s) \<noteq> QUEUE_SENTINEL"
      by (metis count_list_0_iff last_in_set)
    with ne l z(1) show False by simp
  qed
  have r3: "working s = []"
  proof (rule ccontr)
    assume "working s \<noteq> []"
    then have "0 < length (working s)" by simp
    from working_alive [OF this] a z(1) show False by simp
  qed
  from r1 r2 r3 show ?thesis by simp
qed

lemmas pool_evaluation =
  init_pool_def start_task_def produce_item_def write_item_def get_item_def put_held_def
  get_tasks.simps chunksize_def producer_init_def full_def maxsize_def
  lyric_writer_step_def write_data_def

text \<open>
  C4, as amended. In every run from the initial state in which the writer has left its loop
  by its \<^verbatim>\<open>break\<close>, whatever the schedule, the size of the pool and the outcome of
  the fetches, the raw lyrics file has got exactly one line for every non-empty line of the
  batch of every URL whose fetch found lyrics: nothing is lost and nothing is written twice.
  The empty lines of a batch are not written (\<^verbatim>\<open>if line:\<close> in \<^verbatim>\<open>write_data\<close>), so the number
  of lines written is in general smaller than the sum of the sizes of the batches. The URLs
  are supposed to differ from the sentinel string.
\<close>

theorem written_lines_are_nonempty_lines:
  assumes "\<forall>u \<in> set (url_list sc). Str u \<noteq> QUEUE_SENTINEL"
    and "run sc sched (init_pool sc fs) = Some s"
    and "writer_status s = Exited"
  shows "file_lines (fst (writer_st s)) (lyric_file sc)
     = file_lines fs (lyric_file sc)
       + sum_list (map (nonempty_lines (fetch_page sc)) (url_list sc))"
proof -
  from run_invariants [OF init_pool_inv [OF assms(1)] init_lines_kept [OF assms(1)] assms(2)]
  have i: "pool_inv sc s" and l: "lines_kept sc fs s" by simp_all
  from writer_exited_all_consumed [OF assms(1) i assms(3)]
  have "todo s = []" "lyrics_queue s = []" "working s = []" by simp_all
  with l assms(3) show ?thesis by (simp add: lines_kept_def)
qed


theorem written_lines_are_nonempty_lines_witness:
  "\<exists>s. run \<lparr>processes = 3,
            fetch_page = (\<lambda>u. Page (py ''<pre>a'' @ [10, 10] @ py ''b</pre>'')),
            host = \<lparr>can_open = (\<lambda>name. True), can_write = (\<lambda>text. True)\<rparr>,
            url_list = [py ''u''], lyric_file = py ''raw'', max_dl = 1\<rparr>
        [Start, Start, Start, Produce, Get 0, Put 0, Produce, Get 0, Put 0, Write, Write, Produce]
        (init_pool \<lparr>processes = 3,
            fetch_page = (\<lambda>u. Page (py ''<pre>a'' @ [10, 10] @ py ''b</pre>'')),
            host = \<lparr>can_open = (\<lambda>name. True), can_write = (\<lambda>text. True)\<rparr>,
            url_list = [py ''u''], lyric_file = py ''raw'', max_dl = 1\<rparr> Map.empty) = Some s
     \<and> writer_status s = Exited
     \<and> file_lines (fst (writer_st s)) (py ''raw'')
        = file_lines Map.empty (py ''raw'')
          + sum_list (map (nonempty_lines (\<lambda>u. Page (py ''<pre>a'' @ [10, 10] @ py ''b</pre>'')))
              [py ''u''])"
proof -
  let ?fetch = "\<lambda>u :: pystr. Page (py ''<pre>a'' @ [10, 10] @ py ''b</pre>'')"
  let ?sc = "\<lparr>processes = 3, fetch_page = ?fetch,
            host = \<lparr>can_open = (\<lambda>name. True), can_write = (\<lambda>text. True)\<rparr>,
            url_list = [py ''u''], lyric_file = py ''raw'', max_dl = 1\<rparr>"
  let ?sched = "[Start, Start, Start, Produce, Get 0, Put 0, Produce, Get 0, Put 0, Write, Write,
    Produce]"
  have f: "findall_pre (py ''<pre>a'' @ [10, 10] @ py ''b</pre>'') = [py ''a'' @ [10, 10] @ py ''b'']"
    by code_simp
  have r: "re_split_newline (py ''a'' @ [10, 10] @ py ''b'') = [py ''a'', [], py ''b'']"
    by code_simp
  have u: "Str (py ''u'') \<noteq> QUEUE_SENTINEL"
    by (simp add: QUEUE_SENTINEL_def py_def)
  from f r u have g1: "get_song_lyrics_step ?fetch (Str (py ''u''))
      = ([Lines [py ''a'', [], py ''b'']], Continue)"
    by (simp add: get_song_lyrics_step_def)
  have g2: "get_song_lyrics_step ?fetch QUEUE_SENTINEL = ([QUEUE_SENTINEL], Break)"
    by (simp add: get_song_lyrics_step_def)
  have l: "Lines [py ''a'', [], py ''b''] \<noteq> QUEUE_SENTINEL"
    by (simp add: QUEUE_SENTINEL_def)
  have n: "py ''a'' \<noteq> []" "py ''b'' \<noteq> []" by (simp_all add: py_def)
  from g1 g2 l n have "\<exists>s. run ?sc ?sched (init_pool ?sc Map.empty) = Some s
      \<and> writer_status s = Exited"
    by (simp add: pool_evaluation)
  then obtain s where s: "run ?sc ?sched (init_pool ?sc Map.empty) = Some s"
    and e: "writer_status s = Exited"
    by blast
  from u have "\<forall>u \<in> set (url_list ?sc). Str u \<noteq> QUEUE_SENTINEL" by simp
  from written_lines_are_nonempty_lines [OF this s e] s e show ?thesis
    by (intro exI [of _ s]) simp
qed

text \<open>
  The claim as it was stated, with the sum of the sizes of the batches, fails: the batch
  \<^verbatim>\<open>a\<close>, empty line, \<^verbatim>\<open>b\<close> has three lines, and the file gets two.
\<close>

theorem written_lines_skip_empty_lines:
  "map_option (\<lambda>s. (writer_status s, file_lines (fst (writer_st s)) (py ''raw'')))
     (run \<lparr>processes = 3,
            fetch_page = (\<lambda>u. Page (py ''<pre>a'' @ [10, 10] @ py ''b</pre>'')),
            host = \<lparr>can_open = (\<lambda>name. True), can_write = (\<lambda>text. True)\<rparr>,
            url_list = [py ''u''], lyric_file = py ''raw'', max_dl = 1\<rparr>
        [Start, Start, Start, Produce, Get 0, Put 0, Produce, Get 0, Put 0, Write, Write, Produce]
        (init_pool \<lparr>processes = 3,
            fetch_page = (\<lambda>u. Page (py ''<pre>a'' @ [10, 10] @ py ''b</pre>'')),
            host = \<lparr>can_open = (\<lambda>name. True), can_write = (\<lambda>text. True)\<rparr>,
            url_list = [py ''u''], lyric_file = py ''raw'', max_dl = 1\<rparr> Map.empty))
     = Some (Exited, 2)
   \<and> map_option length
        (batch_of (\<lambda>u. Page (py ''<pre>a'' @ [10, 10] @ py ''b</pre>'')) (py ''u'')) = Some 3"
proof -
  let ?fetch = "\<lambda>u :: pystr. Page (py ''<pre>a'' @ [10, 10] @ py ''b</pre>'')"
  have f: "findall_pre (py ''<pre>a'' @ [10, 10] @ py ''b</pre>'') = [py ''a'' @ [10, 10] @ py ''b'']"
    by code_simp
  have r: "re_split_newline (py ''a'' @ [10, 10] @ py ''b'') = [py ''a'', [], py ''b'']"
    by code_simp
  have u: "Str (py ''u'') \<noteq> QUEUE_SENTINEL"
    by (simp add: QUEUE_SENTINEL_def py_def)
  from f r u have g1: "get_song_lyrics_step ?fetch (Str (py ''u''))
      = ([Lines [py ''a'', [], py ''b'']], Continue)"
    by (simp add: get_song_lyrics_step_def)
  have g2: "get_song_lyrics_step ?fetch QUEUE_SENTINEL = ([QUEUE_SENTINEL], Break)"
    by (simp add: get_song_lyrics_step_def)
  have l: "Lines [py ''a'', [], py ''b''] \<noteq> QUEUE_SENTINEL"
    by (simp add: QUEUE_SENTINEL_def)
  have n: "py ''a'' \<noteq> []" "py ''b'' \<noteq> []" by (simp_all add: py_def)
  from f r have b: "batch_of ?fetch (py ''u'') = Some [py ''a'', [], py ''b'']"
    by (simp add: batch_of_def)
  have c: "line_count (py ''a'' @ [10] @ py ''b'' @ [10]) = 2"
    by (simp add: line_count_def py_def)
  from g1 g2 l n c b show ?thesis
    by (simp add: pool_evaluation file_lines_def)
qed


subsection \<open>Runs in which nothing fails\<close>

lemma write_lines_writable:
  "\<forall>l \<in> set data. l \<noteq> [] \<longrightarrow> can_write os (l @ [10]) \<Longrightarrow> snd (write_lines os text data) = None"
  by (induction data arbitrary: "text") simp_all

lemma writer_step_writable:
  assumes "can_open os f" and "writable os x" and "lyric_writer_step os f N st x = (st', e)"
  shows "e \<noteq> Raise"
proof (cases "x = QUEUE_SENTINEL")
  case True
  with assms(3) show ?thesis
    by (auto simp: lyric_writer_step_def split: prod.splits if_splits)
next
  case False
  with assms(2) have "\<forall>l \<in> set (iterate x). l \<noteq> [] \<longrightarrow> can_write os (l @ [10])"
    by (simp add: writable_def)
  from write_lines_writable [OF this,
      of "case fst st f of None \<Rightarrow> [] | Some text \<Rightarrow> text"] assms(1)
  have "snd (write_data os (fst st) f (iterate x)) = None"
    by (auto simp: write_data_def split: prod.splits)
  with assms(3) False show ?thesis
    by (auto simp: lyric_writer_step_def split: prod.splits option.splits)
qed

lemma todo_members:
  assumes "queue_order sc s" and "x \<in> set (todo s)"
  shows "x = QUEUE_SENTINEL \<or> (\<exists>u \<in> set (url_list sc). x = Str u)"
proof -
  from assms(1) obtain us j where t: "todo s = map Str us @ replicate j QUEUE_SENTINEL"
    and u: "set us \<subseteq> set (url_list sc)"
    by (auto simp: queue_order_def)
  from assms(2) t have "x \<in> Str ` set us \<or> x = QUEUE_SENTINEL" by auto
  with u show ?thesis by blast
qed

lemma step_fine:
  assumes "scrape_ok sc" and "x = QUEUE_SENTINEL \<or> (\<exists>u \<in> set (url_list sc). x = Str u)"
  shows "held_fine (host sc) (k, Some (get_song_lyrics_step (fetch_page sc) x))"
proof (cases "x = QUEUE_SENTINEL")
  case True
  then show ?thesis by (simp add: get_song_lyrics_step_def writable_def)
next
  case False
  with assms(2) obtain u where u: "u \<in> set (url_list sc)" and x: "x = Str u" by auto
  from assms(1) u have r: "fetch_page sc u \<noteq> Raises"
    and b: "case batch_of (fetch_page sc) u of None \<Rightarrow> True
      | Some ls \<Rightarrow> writable (host sc) (Lines ls)"
    by (simp_all add: scrape_ok_def)
  from r obtain html where h: "fetch_page sc u = Page html"
    by (cases "fetch_page sc u") auto
  show ?thesis
  proof (cases "findall_pre html")
    case Nil
    with False x h show ?thesis by (simp add: get_song_lyrics_step_def)
  next
    case (Cons m ms)
    with b h have "writable (host sc) (Lines (re_split_newline m))"
      by (simp add: batch_of_def)
    with False x h Cons show ?thesis by (simp add: get_song_lyrics_step_def)
  qed
qed

lemma exec_calls_alive_eq:
  assumes "exec sc ev s = Some s'" and "\<forall>w \<in> set (working s). held_ok w"
    and "\<forall>w \<in> set (working s). held_fine os w"
    and "calls_alive s = sentinels_left s"
  shows "calls_alive s' = sentinels_left s'"
proof (cases ev)
  case Start
  with assms(1) have "start_task s = Some s'" by simp
  then have "calls_alive s' = calls_alive s"
    by (cases rule: start_task_Some) (simp_all add: calls_alive_def)
  with exec_sentinels_left [OF assms(1)] Start assms(4) show ?thesis by auto
next
  case Produce
  with assms(1) have "produce_item sc s = Some s'" by simp
  then have "calls_alive s' = calls_alive s"
    by (cases rule: produce_item_Some) (simp_all add: calls_alive_def)
  with exec_sentinels_left [OF assms(1)] Produce assms(4) show ?thesis by auto
next
  case Write
  with assms(1) have "write_item sc s = Some s'" by simp
  then have "calls_alive s' = calls_alive s"
    by (cases rule: write_item_Some) (simp_all add: calls_alive_def)
  with exec_sentinels_left [OF assms(1)] Write assms(4) show ?thesis by auto
next
  case (Get i)
  with assms(1) have "get_item sc i s = Some s'" by simp
  then have "calls_alive s' = calls_alive s"
  proof (cases rule: get_item_Some)
    case (1 k url rest)
    with sum_list_map_update [OF 1(1), of calls_left
        "(k, Some (get_song_lyrics_step (fetch_page sc) url))"]
    show ?thesis by (simp add: calls_alive_def)
  qed
  with exec_sentinels_left [OF assms(1)] Get assms(4) show ?thesis by auto
next
  case (Put i)
  with assms(1) have p: "put_held i s = Some s'" by simp
  from exec_sentinels_left [OF assms(1)] Put obtain k puts e where
    i: "i < length (working s)" and w: "working s ! i = (k, Some (puts, e))"
    and sl: "sentinels_left s' + count_list puts QUEUE_SENTINEL = sentinels_left s"
    by auto
  from assms(2) i w have ok: "held_ok (k, Some (puts, e))"
    by (metis nth_mem)
  from assms(3) i w have fine: "held_fine os (k, Some (puts, e))"
    by (metis nth_mem)
  from p show ?thesis
  proof (cases rule: put_held_Some)
    case (Continue k' puts')
    with w ok have "count_list puts QUEUE_SENTINEL = 0" by (simp add: count_list_0_iff)
    moreover from Continue sum_list_map_update [OF i, of calls_left "(k', None)"]
    have "calls_alive s' = calls_alive s" by (simp add: calls_alive_def)
    ultimately show ?thesis using sl assms(4) by simp
  next
    case (Next k' puts')
    with w ok have "count_list puts QUEUE_SENTINEL = 1" by auto
    moreover from Next sum_list_map_update [OF i, of calls_left "(k', None)"]
    have "calls_alive s' + 1 = calls_alive s" by (simp add: calls_alive_def)
    ultimately show ?thesis using sl assms(4) by simp
  next
    case (Return puts')
    with w ok have "count_list puts QUEUE_SENTINEL = 1" by auto
    moreover from Return sum_list_map_remove [OF i, of calls_left]
    have "calls_alive s' + 1 = calls_alive s" by (simp add: calls_alive_def)
    ultimately show ?thesis using sl assms(4) by simp
  next
    case (Raise k' puts')
    with w fine show ?thesis by simp
  qed
qed

lemma exec_held_fine:
  assumes "exec sc ev s = Some s'" and "scrape_ok sc" and "queue_order sc s"
    and "\<forall>w \<in> set (working s). held_fine (host sc) w"
  shows "\<forall>w \<in> set (working s'). held_fine (host sc) w"
proof (cases ev)
  case Start
  with assms(1) have "start_task s = Some s'" by simp
  then show ?thesis using assms(4) by (cases rule: start_task_Some) auto
next
  case Produce
  with assms(1) have "produce_item sc s = Some s'" by simp
  then show ?thesis using assms(4) by (cases rule: produce_item_Some) auto
next
  case Write
  with assms(1) have "write_item sc s = Some s'" by simp
  then show ?thesis using assms(4) by (cases rule: write_item_Some) auto
next
  case (Get i)
  with assms(1) have "get_item sc i s = Some s'" by simp
  then show ?thesis
  proof (cases rule: get_item_Some)
    case (1 k url rest)
    then have "url \<in> set (todo s)" by (simp add: todo_def)
    from todo_members [OF assms(3) this]
    have "held_fine (host sc) (k, Some (get_song_lyrics_step (fetch_page sc) url))"
      by (rule step_fine [OF assms(2)])
    with 1 assms(4) show ?thesis
      by (auto dest!: set_update_subset_insert [THEN subsetD])
  qed
next
  case (Put i)
  with assms(1) have "put_held i s = Some s'" by simp
  then show ?thesis using assms(4)
    by (cases rule: put_held_Some)
      (auto dest!: set_update_subset_insert [THEN subsetD] dest: in_set_takeD in_set_dropD)
qed

lemma exec_queue_writable:
  assumes "exec sc ev s = Some s'"
    and "\<forall>w \<in> set (working s). held_fine (host sc) w"
    and "\<forall>x \<in> set (lyrics_queue s). writable (host sc) x"
  shows "\<forall>x \<in> set (lyrics_queue s'). writable (host sc) x"
proof -
  from exec_lyrics_queue [OF assms(1)] show ?thesis
  proof (elim disjE exE conjE)
    fix i k puts e
    assume i: "i < length (working s)" and w: "working s ! i = (k, Some (puts, e))"
      and q: "lyrics_queue s' = lyrics_queue s @ puts"
    from assms(2) i w have "held_fine (host sc) (k, Some (puts, e))" by (metis nth_mem)
    with q assms(3) show ?thesis by auto
  next
    fix x e
    assume "lyrics_queue s = x # lyrics_queue s'"
    with assms(3) show ?thesis by (metis list.set_intros(2))
  next
    assume "lyrics_queue s' = lyrics_queue s"
    with assms(3) show ?thesis by simp
  qed
qed

lemma writer_step_Continue:
  "lyric_writer_step os f N st x = (st', Continue) \<Longrightarrow> snd st < N \<Longrightarrow> snd st' < N"
  by (auto simp: lyric_writer_step_def split: prod.splits if_splits option.splits)

lemma exec_writer_fine:
  assumes "exec sc ev s = Some s'" and "scrape_ok sc"
    and "\<forall>w \<in> set (working s). held_fine (host sc) w"
    and "\<forall>x \<in> set (lyrics_queue s). writable (host sc) x"
    and "writer_status s \<noteq> Raised" and "\<not> worker_raised s"
    and "writer_status s = Waiting \<longrightarrow> snd (writer_st s) < max_dl sc"
  shows "writer_status s' \<noteq> Raised \<and> \<not> worker_raised s'
     \<and> (writer_status s' = Waiting \<longrightarrow> snd (writer_st s') < max_dl sc)"
proof (cases ev)
  case Start
  with assms(1) have "start_task s = Some s'" by simp
  then show ?thesis using assms(5-7) by (cases rule: start_task_Some) auto
next
  case Produce
  with assms(1) have "produce_item sc s = Some s'" by simp
  then show ?thesis using assms(5-7) by (cases rule: produce_item_Some) auto
next
  case Write
  from assms(2) have o: "can_open (host sc) (lyric_file sc)" by (simp add: scrape_ok_def)
  from Write assms(1) have "write_item sc s = Some s'" by simp
  then show ?thesis
  proof (cases rule: write_item_Some)
    case (Continue lyrics rest st)
    from writer_step_Continue [OF Continue(3)] Continue(4) assms(5-7) show ?thesis by auto
  next
    case (Break lyrics rest st)
    with assms(6) show ?thesis by simp
  next
    case (Raise lyrics rest st)
    from Raise(2) assms(4) have "writable (host sc) lyrics" by simp
    from writer_step_writable [OF o this Raise(3)] show ?thesis by simp
  qed
next
  case (Get i)
  with assms(1) have "get_item sc i s = Some s'" by simp
  then show ?thesis using assms(5-7) by (cases rule: get_item_Some) auto
next
  case (Put i)
  with assms(1) have "put_held i s = Some s'" by simp
  then show ?thesis
  proof (cases rule: put_held_Some)
    case (Raise k puts)
    from assms(3) Raise(1,2) have "held_fine (host sc) (k, Some (puts, ending.Raise))"
      by (metis nth_mem)
    then show ?thesis by simp
  qed (use assms(5-7) in auto)
qed

lemma exec_no_failure:
  assumes "exec sc ev s = Some s'" and "scrape_ok sc" and "pool_inv sc s" and "no_failure sc s"
  shows "no_failure sc s'"
proof -
  from assms(3) have q: "queue_order sc s" and h: "\<forall>w \<in> set (working s). held_ok w"
    by (simp_all add: pool_inv_def)
  from assms(4) have c: "calls_alive s = sentinels_left s"
    and f: "\<forall>w \<in> set (working s). held_fine (host sc) w"
    and w: "\<forall>x \<in> set (lyrics_queue s). writable (host sc) x"
    and r: "writer_status s \<noteq> Raised" "\<not> worker_raised s"
      "writer_status s = Waiting \<longrightarrow> snd (writer_st s) < max_dl sc"
    by (simp_all add: no_failure_def)
  from exec_calls_alive_eq [OF assms(1) h f c] exec_held_fine [OF assms(1,2) q f]
    exec_queue_writable [OF assms(1) f w] exec_writer_fine [OF assms(1,2) f w r]
  show ?thesis by (simp add: no_failure_def)
qed

lemma init_no_failure:
  assumes "scrape_ok sc"
  shows "no_failure sc (init_pool sc fs)"
proof -
  let ?s = "init_pool sc fs"
  from assms have u: "\<forall>u \<in> set (url_list sc). Str u \<noteq> QUEUE_SENTINEL" and n: "0 < max_dl sc"
    by (simp_all add: scrape_ok_def)
  have t: "todo ?s = map Str (url_list sc) @ replicate (nat (max_dl sc)) QUEUE_SENTINEL"
    by (simp add: todo_def init_pool_def producer_init_def producer_puts_urls)
  from count_list_sentinel_urls [OF u, of "nat (max_dl sc)"] t
  have "sentinels_left ?s = nat (max_dl sc)"
    by (simp add: sentinels_left_def) (simp add: init_pool_def)
  moreover from init_calls [of sc fs] have "calls_alive ?s = nat (max_dl sc)"
    by (simp add: calls_alive_def) (simp add: init_pool_def)
  ultimately have "calls_alive ?s = sentinels_left ?s" by simp
  with n show ?thesis by (simp add: no_failure_def) (simp add: init_pool_def)
qed

lemma run_no_failure:
  "scrape_ok sc \<Longrightarrow> pool_inv sc s \<Longrightarrow> no_failure sc s \<Longrightarrow> run sc sched s = Some s' \<Longrightarrow>
   pool_inv sc s' \<and> no_failure sc s'"
proof (induction sched arbitrary: s)
  case Nil
  then show ?case by simp
next
  case (Cons ev sched)
  from Cons.prems(4) obtain t where e: "exec sc ev s = Some t" and r: "run sc sched t = Some s'"
    by (auto split: option.splits)
  from Cons.prems(1) exec_pool_inv [OF e Cons.prems(2)] exec_no_failure [OF e Cons.prems(1-3)] r
  show ?case by (rule Cons.IH)
qed

lemma run_work_left:
  "run sc sched s = Some s' \<Longrightarrow> length sched + work_left s' \<le> work_left s"
proof (induction sched arbitrary: s)
  case Nil
  then show ?case by simp
next
  case (Cons ev sched)
  from Cons.prems obtain t where e: "exec sc ev s = Some t" and r: "run sc sched t = Some s'"
    by (auto split: option.splits)
  from exec_work_left [OF e] Cons.IH [OF r] show ?case by simp
qed

text \<open>When an event can happen.\<close>

lemma start_enabled: "0 < idle s \<Longrightarrow> tasks s \<noteq> [] \<Longrightarrow> exec sc Start s \<noteq> None"
  by (auto simp: start_task_def split: list.splits task.splits nat.splits)

lemma produce_enabled:
  "producing s \<Longrightarrow>
   producer_step (producer_st s) = None \<or> \<not> full (maxsize (max_dl sc)) (input_queue s) \<Longrightarrow>
   exec sc Produce s \<noteq> None"
  by (auto simp: produce_item_def split: option.splits)

lemma write_enabled: "writing s \<Longrightarrow> lyrics_queue s \<noteq> [] \<Longrightarrow> exec sc Write s \<noteq> None"
  by (auto simp: write_item_def split: list.splits prod.splits ending.splits)

lemma get_enabled:
  "i < length (working s) \<Longrightarrow> snd (working s ! i) = None \<Longrightarrow> input_queue s \<noteq> [] \<Longrightarrow>
   exec sc (Get i) s \<noteq> None"
  by (auto simp: get_item_def split: prod.splits option.splits list.splits)

lemma put_enabled:
  "i < length (working s) \<Longrightarrow> snd (working s ! i) = Some h \<Longrightarrow> exec sc (Put i) s \<noteq> None"
  by (auto simp: put_held_def split: prod.splits option.splits ending.splits nat.splits)

lemma none_held_sentinels:
  "\<forall>w \<in> set ws. snd w = None \<Longrightarrow> sum_list (map held_sentinels ws) = 0"
  by (induction ws) auto

lemma todo_sentinels:
  assumes "\<forall>u \<in> set (url_list sc). Str u \<noteq> QUEUE_SENTINEL" and "queue_order sc s"
    and "0 < max_dl sc" and "todo s \<noteq> []"
  shows "0 < count_list (todo s) QUEUE_SENTINEL"
proof -
  from assms(2) obtain us j where t: "todo s = map Str us @ replicate j QUEUE_SENTINEL"
    and u: "set us \<subseteq> set (url_list sc)" and o: "us = [] \<or> j = nat (max_dl sc)"
    by (auto simp: queue_order_def)
  from u assms(1) have "\<forall>u \<in> set us. Str u \<noteq> QUEUE_SENTINEL" by auto
  from count_list_sentinel_urls [OF this, of j] t
  have c: "count_list (todo s) QUEUE_SENTINEL = j" by simp
  from o assms(3,4) t have "0 < j" by auto
  with c show ?thesis by simp
qed

text \<open>
  No deadlock: in a run in which nothing fails, as long as a task is waiting or running,
  some process can take a step.
\<close>

lemma not_stuck:
  assumes ok: "scrape_ok sc" and inv: "pool_inv sc s" and nf: "no_failure sc s"
    and nd: "\<not> all_done s"
  shows "\<exists>ev. exec sc ev s \<noteq> None"
proof -
  from ok have n: "0 < max_dl sc" and p: "3 \<le> processes sc"
    and u: "\<forall>u \<in> set (url_list sc). Str u \<noteq> QUEUE_SENTINEL"
    by (simp_all add: scrape_ok_def)
  from inv have q: "queue_order sc s" and k: "sentinels_kept sc s" and t: "tasks_order sc s"
    by (simp_all add: pool_inv_def)
  from nf have c: "calls_alive s = sentinels_left s"
    and r: "writer_status s \<noteq> Raised"
    and w: "writer_status s = Waiting \<longrightarrow> snd (writer_st s) < max_dl sc"
    by (simp_all add: no_failure_def)
  from t consider
    (first) cs where "tasks s = ProducerTask # WriterTask # cs" "idle s = processes sc"
    | (second) cs where "tasks s = WriterTask # cs"
        "idle s + of_bool (producing s) = processes sc"
    | (third) "producing s \<or> producer_step (producer_st s) = None"
        "writing s \<longleftrightarrow> writer_status s = Waiting"
        "idle s + of_bool (producing s) + of_bool (writing s) + length (working s)
           = processes sc"
    by (auto simp: tasks_order_def)
  then show ?thesis
  proof cases
    case first
    with p have "exec sc Start s \<noteq> None" by (intro start_enabled) simp_all
    then show ?thesis ..
  next
    case second
    from second(2) p have "0 < idle s" by (cases "producing s") simp_all
    with second(1) have "exec sc Start s \<noteq> None" by (intro start_enabled) simp_all
    then show ?thesis ..
  next
    case third
    show ?thesis
    proof (cases "\<exists>i < length (working s). snd (working s ! i) \<noteq> None")
      case True
      then obtain i h where "i < length (working s)" "snd (working s ! i) = Some h" by auto
      then have "exec sc (Put i) s \<noteq> None" by (rule put_enabled)
      then show ?thesis ..
    next
      case False
      then have none: "\<forall>i < length (working s). snd (working s ! i) = None" by blast
      then have "\<forall>w \<in> set (working s). snd w = None"
        by (metis in_set_conv_nth)
      then have "sum_list (map held_sentinels (working s)) = 0" by (rule none_held_sentinels)
      with c have a: "calls_alive s = count_list (todo s) QUEUE_SENTINEL"
        by (simp add: sentinels_left_def)
      have z: "todo s \<noteq> [] \<Longrightarrow> 0 < calls_alive s"
        using todo_sentinels [OF u q n] a by simp
      have g: "working s \<noteq> [] \<Longrightarrow> input_queue s \<noteq> [] \<Longrightarrow> exec sc (Get 0) s \<noteq> None"
        using none by (intro get_enabled) simp_all
      have st: "working s = [] \<Longrightarrow> 0 < calls_alive s \<Longrightarrow> 0 < idle s \<Longrightarrow>
          exec sc Start s \<noteq> None"
      proof -
        assume "working s = []" and "0 < calls_alive s" and i: "0 < idle s"
        then have "tasks s \<noteq> []" by (auto simp: calls_alive_def)
        with i show ?thesis by (rule start_enabled)
      qed
      show ?thesis
      proof (cases "producing s")
        case True
        show ?thesis
        proof (cases "producer_step (producer_st s) = None
            \<or> \<not> full (maxsize (max_dl sc)) (input_queue s)")
          case True
          with \<open>producing s\<close> have "exec sc Produce s \<noteq> None" by (rule produce_enabled)
          then show ?thesis ..
        next
          case blocked: False
          then have i: "input_queue s \<noteq> []" by (auto simp: full_def)
          show ?thesis
          proof (cases "working s = []")
            case True
            from i have "todo s \<noteq> []" by (simp add: todo_def)
            then have "0 < calls_alive s" by (rule z)
            moreover from third(3) True p have "0 < idle s"
              by (cases "producing s"; cases "writing s") simp_all
            ultimately have "exec sc Start s \<noteq> None" using True by (intro st)
            then show ?thesis ..
          next
            case False
            from g [OF this i] show ?thesis ..
          qed
        qed
      next
        case idle: False
        with third(1) have "producer_step (producer_st s) = None" by simp
        then have td: "todo s = input_queue s" by (simp add: todo_def producer_puts_end)
        show ?thesis
        proof (cases "working s = []")
          case False
          then have "0 < length (working s)" by simp
          from working_alive [OF this] a td have "input_queue s \<noteq> []" by auto
          from g [OF False this] show ?thesis ..
        next
          case True
          show ?thesis
          proof (cases "writing s")
            case True
            show ?thesis
            proof (cases "lyrics_queue s = []")
              case False
              with True have "exec sc Write s \<noteq> None" by (rule write_enabled)
              then show ?thesis ..
            next
              case empty: True
              from True third(2) w have "snd (writer_st s) < max_dl sc" by simp
              with k empty have "0 < sentinels_left s"
                by (auto simp: sentinels_kept_def split: if_splits)
              with c have "0 < calls_alive s" by simp
              moreover from third(3) \<open>working s = []\<close> p have "0 < idle s"
                by (cases "producing s"; cases "writing s") simp_all
              ultimately have "exec sc Start s \<noteq> None" using \<open>working s = []\<close> by (intro st)
              then show ?thesis ..
            qed
          next
            case False
            with nd idle True have "tasks s \<noteq> []" by (simp add: all_done_def)
            moreover from third(3) True p have "0 < idle s"
              by (cases "producing s"; cases "writing s") simp_all
            ultimately have "exec sc Start s \<noteq> None" by (intro start_enabled)
            then show ?thesis ..
          qed
        qed
      qed
    qed
  qed
qed

text \<open>
  When every task has ended, the writer has left its loop by its \<^verbatim>\<open>break\<close>, having
  counted as many sentinels as there are workers, and both queues are empty.
\<close>

lemma all_done_exited:
  assumes ok: "scrape_ok sc" and inv: "pool_inv sc s" and nf: "no_failure sc s"
    and d: "all_done s"
  shows "writer_status s = Exited \<and> snd (writer_st s) = max_dl sc \<and> \<not> worker_raised s
     \<and> input_queue s = [] \<and> lyrics_queue s = []"
proof -
  from ok have u: "\<forall>u \<in> set (url_list sc). Str u \<noteq> QUEUE_SENTINEL"
    by (simp add: scrape_ok_def)
  from inv have t: "tasks_order sc s"
    and e: "writer_status s = Exited \<longrightarrow> snd (writer_st s) = max_dl sc \<and> 0 < max_dl sc"
    by (simp_all add: pool_inv_def)
  from nf have r: "writer_status s \<noteq> Raised" "\<not> worker_raised s"
    by (simp_all add: no_failure_def)
  from d t have "writing s \<longleftrightarrow> writer_status s = Waiting"
    by (auto simp: tasks_order_def all_done_def)
  with d r(1) have x: "writer_status s = Exited"
    by (cases "writer_status s") (simp_all add: all_done_def)
  from writer_exited_all_consumed [OF u inv x] have "todo s = []" "lyrics_queue s = []"
    by simp_all
  with x e r(2) show ?thesis by (simp add: todo_def)
qed

lemma blocked_stuck: "blocked sc s \<longleftrightarrow> \<not> all_done s \<and> (\<forall>ev. exec sc ev s = None)"
proof
  assume b: "blocked sc s"
  have "exec sc ev s = None" for ev
  proof (cases ev)
    case (Get i)
    with b show ?thesis
      by (cases "i < length (working s)") (auto simp: blocked_def list_all_iff get_item_def)
  next
    case (Put i)
    with b show ?thesis
      by (cases "i < length (working s)") (auto simp: blocked_def list_all_iff put_held_def)
  qed (use b in \<open>simp_all add: blocked_def\<close>)
  with b show "\<not> all_done s \<and> (\<forall>ev. exec sc ev s = None)" by (simp add: blocked_def)
next
  assume a: "\<not> all_done s \<and> (\<forall>ev. exec sc ev s = None)"
  then have "exec sc Start s = None" "exec sc Produce s = None" "exec sc Write s = None"
    "\<forall>i. exec sc (Get i) s = None \<and> exec sc (Put i) s = None"
    by blast+
  with a show "blocked sc s" by (simp add: blocked_def list_all_iff del: exec.simps)
qed

lemma run_append:
  "run sc (xs @ ys) s = (case run sc xs s of None \<Rightarrow> None | Some t \<Rightarrow> run sc ys t)"
  by (induction xs arbitrary: s) (simp_all split: option.splits)

text \<open>Every run in which nothing fails can be continued until every task has ended.\<close>

lemma run_completes:
  "scrape_ok sc \<Longrightarrow> pool_inv sc s \<Longrightarrow> no_failure sc s \<Longrightarrow>
   \<exists>later s'. run sc later s = Some s' \<and> all_done s'"
proof (induction s rule: measure_induct_rule [where f = work_left])
  case (less s)
  show ?case
  proof (cases "all_done s")
    case True
    then have "run sc [] s = Some s \<and> all_done s" by simp
    then show ?thesis by blast
  next
    case False
    from not_stuck [OF less.prems False] obtain ev t where e: "exec sc ev s = Some t" by auto
    from exec_work_left [OF e] less.prems(1) exec_pool_inv [OF e less.prems(2)]
      exec_no_failure [OF e less.prems]
    have "\<exists>later s'. run sc later t = Some s' \<and> all_done s'" by (rule less.IH)
    then obtain later s' where "run sc later t = Some s'" "all_done s'" by blast
    with e have "run sc (ev # later) s = Some s' \<and> all_done s'" by simp
    then show ?thesis by blast
  qed
qed

text \<open>
  C5, as amended. Take a pool of at least three processes, \<open>N \<ge> 1\<close> workers and any list of
  URLs (none of them the sentinel string), and suppose that no fetch raises and that the
  raw lyrics file can be opened and its lines written. Then, for every schedule: a run has
  at most \<open>work_left\<close> of the initial state many steps; from every state it reaches, the
  run can go on until every task has ended; a state in which a task is waiting or running
  is never stuck; and when every task has ended, the writer has left its loop by its
  \<^verbatim>\<open>break\<close> with exactly \<open>N\<close> sentinels counted, no worker has raised, and both queues are
  empty.
\<close>

theorem pipeline_terminates_without_deadlock:
  assumes "scrape_ok sc" and "run sc sched (init_pool sc fs) = Some s"
  shows "length sched \<le> work_left (init_pool sc fs)
     \<and> (\<exists>later s'. run sc later s = Some s' \<and> all_done s')
     \<and> (\<not> all_done s \<longrightarrow> (\<exists>ev. exec sc ev s \<noteq> None))
     \<and> (all_done s \<longrightarrow>
          writer_status s = Exited \<and> snd (writer_st s) = max_dl sc \<and> \<not> worker_raised s
          \<and> input_queue s = [] \<and> lyrics_queue s = [])"
proof -
  from assms(1) have u: "\<forall>u \<in> set (url_list sc). Str u \<noteq> QUEUE_SENTINEL"
    by (simp add: scrape_ok_def)
  from run_no_failure [OF assms(1) init_pool_inv [OF u] init_no_failure [OF assms(1)] assms(2)]
  have i: "pool_inv sc s" and n: "no_failure sc s" by simp_all
  from run_work_left [OF assms(2)] have "length sched \<le> work_left (init_pool sc fs)" by simp
  moreover note run_completes [OF assms(1) i n]
  moreover from not_stuck [OF assms(1) i n]
  have "\<not> all_done s \<longrightarrow> (\<exists>ev. exec sc ev s \<noteq> None)" by blast
  moreover from all_done_exited [OF assms(1) i n]
  have "all_done s \<longrightarrow>
          writer_status s = Exited \<and> snd (writer_st s) = max_dl sc \<and> \<not> worker_raised s
          \<and> input_queue s = [] \<and> lyrics_queue s = []" by blast
  ultimately show ?thesis by blast
qed

theorem pipeline_terminates_without_deadlock_witness:
  "scrape_ok \<lparr>processes = 3,
       fetch_page = (\<lambda>u. Page (py ''<pre>a'' @ [10, 10] @ py ''b</pre>'')),
       host = \<lparr>can_open = (\<lambda>name. True), can_write = (\<lambda>text. True)\<rparr>,
       url_list = [py ''u''], lyric_file = py ''raw'', max_dl = 1\<rparr>
   \<and> (\<exists>s. run \<lparr>processes = 3,
            fetch_page = (\<lambda>u. Page (py ''<pre>a'' @ [10, 10] @ py ''b</pre>'')),
            host = \<lparr>can_open = (\<lambda>name. True), can_write = (\<lambda>text. True)\<rparr>,
            url_list = [py ''u''], lyric_file = py ''raw'', max_dl = 1\<rparr>
        [Start, Start, Start, Produce, Get 0, Put 0, Produce, Get 0, Put 0, Write, Write, Produce]
        (init_pool \<lparr>processes = 3,
            fetch_page = (\<lambda>u. Page (py ''<pre>a'' @ [10, 10] @ py ''b</pre>'')),
            host = \<lparr>can_open = (\<lambda>name. True), can_write = (\<lambda>text. True)\<rparr>,
            url_list = [py ''u''], lyric_file = py ''raw'', max_dl = 1\<rparr> Map.empty) = Some s
      \<and> all_done s \<and> writer_status s = Exited \<and> snd (writer_st s) = 1
      \<and> \<not> worker_raised s \<and> input_queue s = [] \<and> lyrics_queue s = [])"
proof -
  let ?fetch = "\<lambda>u :: pystr. Page (py ''<pre>a'' @ [10, 10] @ py ''b</pre>'')"
  let ?sc = "\<lparr>processes = 3, fetch_page = ?fetch,
            host = \<lparr>can_open = (\<lambda>name. True), can_write = (\<lambda>text. True)\<rparr>,
            url_list = [py ''u''], lyric_file = py ''raw'', max_dl = 1\<rparr>"
  let ?sched = "[Start, Start, Start, Produce, Get 0, Put 0, Produce, Get 0, Put 0, Write, Write,
    Produce]"
  have f: "findall_pre (py ''<pre>a'' @ [10, 10] @ py ''b</pre>'') = [py ''a'' @ [10, 10] @ py ''b'']"
    by code_simp
  have r: "re_split_newline (py ''a'' @ [10, 10] @ py ''b'') = [py ''a'', [], py ''b'']"
    by code_simp
  have u: "Str (py ''u'') \<noteq> QUEUE_SENTINEL"
    by (simp add: QUEUE_SENTINEL_def py_def)
  from f r u have g1: "get_song_lyrics_step ?fetch (Str (py ''u''))
      = ([Lines [py ''a'', [], py ''b'']], Continue)"
    by (simp add: get_song_lyrics_step_def)
  have g2: "get_song_lyrics_step ?fetch QUEUE_SENTINEL = ([QUEUE_SENTINEL], Break)"
    by (simp add: get_song_lyrics_step_def)
  have l: "Lines [py ''a'', [], py ''b''] \<noteq> QUEUE_SENTINEL"
    by (simp add: QUEUE_SENTINEL_def)
  have n: "py ''a'' \<noteq> []" "py ''b'' \<noteq> []" by (simp_all add: py_def)
  from u f have ok: "scrape_ok ?sc"
    by (simp add: scrape_ok_def batch_of_def writable_def)
  from g1 g2 l n have "\<exists>s. run ?sc ?sched (init_pool ?sc Map.empty) = Some s \<and> all_done s"
    by (simp add: pool_evaluation all_done_def)
  then obtain s where s: "run ?sc ?sched (init_pool ?sc Map.empty) = Some s" and d: "all_done s"
    by blast
  from pipeline_terminates_without_deadlock [OF ok s] d
  have "writer_status s = Exited \<and> snd (writer_st s) = 1 \<and> \<not> worker_raised s
      \<and> input_queue s = [] \<and> lyrics_queue s = []"
    by simp
  with ok s d show ?thesis by blast
qed

text \<open>
  The claim as it was stated, for every run, fails twice. On a pool of one process
  (\<^verbatim>\<open>Pool()\<close> has \<^verbatim>\<open>os.cpu_count()\<close> processes) the producer fills the input queue and
  waits, and no process is left to take the writer or a worker: the run is stuck before
  the writer has started. And when a fetch raises, the worker ends without having got its
  sentinel (\<^verbatim>\<open>try ... finally\<close> has no \<^verbatim>\<open>except\<close>): the sentinel stays in the input queue,
  and the writer waits with no sentinel counted.
\<close>

theorem pipeline_stuck_on_small_pool_or_raising_fetch:
  "map_option (\<lambda>s. (blocked \<lparr>processes = 1, fetch_page = (\<lambda>u. Page []),
            host = \<lparr>can_open = (\<lambda>name. True), can_write = (\<lambda>text. True)\<rparr>,
            url_list = [py ''u''], lyric_file = py ''raw'', max_dl = 1\<rparr> s,
          writing s, snd (writer_st s)))
     (run \<lparr>processes = 1, fetch_page = (\<lambda>u. Page []),
            host = \<lparr>can_open = (\<lambda>name. True), can_write = (\<lambda>text. True)\<rparr>,
            url_list = [py ''u''], lyric_file = py ''raw'', max_dl = 1\<rparr>
        [Start, Produce]
        (init_pool \<lparr>processes = 1, fetch_page = (\<lambda>u. Page []),
            host = \<lparr>can_open = (\<lambda>name. True), can_write = (\<lambda>text. True)\<rparr>,
            url_list = [py ''u''], lyric_file = py ''raw'', max_dl = 1\<rparr> Map.empty))
     = Some (True, False, 0)
   \<and> map_option (\<lambda>s. (blocked \<lparr>processes = 3, fetch_page = (\<lambda>u. Raises),
            host = \<lparr>can_open = (\<lambda>name. True), can_write = (\<lambda>text. True)\<rparr>,
            url_list = [py ''u''], lyric_file = py ''raw'', max_dl = 1\<rparr> s,
          writer_status s, snd (writer_st s), worker_raised s, input_queue s))
     (run \<lparr>processes = 3, fetch_page = (\<lambda>u. Raises),
            host = \<lparr>can_open = (\<lambda>name. True), can_write = (\<lambda>text. True)\<rparr>,
            url_list = [py ''u''], lyric_file = py ''raw'', max_dl = 1\<rparr>
        [Start, Start, Start, Produce, Get 0, Put 0, Produce, Produce]
        (init_pool \<lparr>processes = 3, fetch_page = (\<lambda>u. Raises),
            host = \<lparr>can_open = (\<lambda>name. True), can_write = (\<lambda>text. True)\<rparr>,
            url_list = [py ''u''], lyric_file = py ''raw'', max_dl = 1\<rparr> Map.empty))
     = Some (True, Waiting, 0, True, [QUEUE_SENTINEL])"
proof -
  have u: "Str (py ''u'') \<noteq> QUEUE_SENTINEL"
    by (simp add: QUEUE_SENTINEL_def py_def)
  then have g: "get_song_lyrics_step (\<lambda>u. Raises) (Str (py ''u'')) = ([], Raise)"
    by (simp add: get_song_lyrics_step_def)
  from u g show ?thesis
    by (simp add: pool_evaluation blocked_def all_done_def producer_step.simps)
qed


end
